theory Spec2Isabelle
  imports Main
begin

section \<open>Geometric model of the canvas\<close>

text \<open>
  The netlist generation of \<open>project2.py\<close>: \<open>CircuitCanvas.get_component_pins\<close>,
  \<open>CircuitCanvas.find_nearest_pin\<close> and the class \<open>NetlistGenerator\<close>. The canvas is
  read-only for the generator; of its fields only \<open>components\<close>, \<open>lines\<close>, \<open>grid_size\<close>
  and \<open>snap_threshold\<close> are read. The \<open>print\<close> calls are left out.

  A \<open>QPoint\<close> is read through \<open>x()\<close> and \<open>y()\<close> only; it is a pair of integers.
  Qt stores them in 32 bits; the coordinates of a canvas and the pin offsets of 30 and
  40 stay far from that range, and the model computes with unbounded integers, as Python
  does on the values it reads.
  A component tag is a Python string. The toolbar places the seven kinds \<open>resistor\<close>,
  \<open>battery\<close>, \<open>capacitor\<close>, \<open>inductor\<close>, \<open>voltmeter\<close>, \<open>ammeter\<close> and \<open>ground\<close>;
  \<open>mouseReleaseEvent\<close> appends whatever tool is selected when \<open>start_point\<close> is still
  set, the tag \<open>delete\<close> included, and the generator itself accepts any tag. An Isabelle
  string holds the code points below 256.
\<close>

type_synonym point = "int \<times> int"

type_synonym kind = string

text \<open>
  \<open>str.lower()\<close> and \<open>str.strip()\<close> on code points below 256: the letters \<open>A\<close> to \<open>Z\<close> and
  the capital letters of Latin-1 (192 to 222 without the sign 215) move up by 32; the
  characters that \<open>str.isspace\<close> accepts are 9 to 13, 28 to 32, 133 and 160.
\<close>

definition py_lower_char :: "char \<Rightarrow> char" where
  "py_lower_char ch =
     (let n = (of_char ch :: nat)
      in if (65 \<le> n \<and> n \<le> 90) \<or> (192 \<le> n \<and> n \<le> 222 \<and> n \<noteq> 215) then char_of (n + 32) else ch)"

definition py_lower :: "string \<Rightarrow> string" where
  "py_lower t = map py_lower_char t"

definition py_space :: "char \<Rightarrow> bool" where
  "py_space ch =
     (let n = (of_char ch :: nat)
      in (9 \<le> n \<and> n \<le> 13) \<or> (28 \<le> n \<and> n \<le> 32) \<or> n = 133 \<or> n = 160)"

definition py_strip :: "string \<Rightarrow> string" where
  "py_strip t = rev (dropWhile py_space (rev (dropWhile py_space t)))"

record canvas =
  components :: "(kind \<times> point) list"
  lines :: "(point \<times> point) list"

text \<open>\<open>CircuitCanvas.__init__\<close>: \<open>self.grid_size = 20\<close>, \<open>self.snap_threshold = 50\<close>.\<close>

definition grid_size :: int where
  "grid_size = 20"

definition snap_threshold :: int where
  "snap_threshold = 50"

text \<open>\<open>QPoint.__sub__\<close> and \<open>QPoint.manhattanLength\<close>.\<close>

fun psub :: "point \<Rightarrow> point \<Rightarrow> point" where
  "psub (x1, y1) (x2, y2) = (x1 - x2, y1 - y2)"

fun manhattanLength :: "point \<Rightarrow> int" where
  "manhattanLength (x, y) = \<bar>x\<bar> + \<bar>y\<bar>"

text \<open>
  \<open>QPoint.__bool__\<close> of PyQt5 is \<open>not isNull()\<close>: the origin is falsy. It decides
  \<open>if snap:\<close> in \<open>_get_node\<close>.
\<close>

definition qpoint_bool :: "point \<Rightarrow> bool" where
  "qpoint_bool p = (p \<noteq> (0, 0))"

text \<open>\<open>CircuitCanvas.get_component_pins\<close>.\<close>

fun get_component_pins :: "kind \<Rightarrow> point \<Rightarrow> point list" where
  "get_component_pins cmp (x, y) =
     (if cmp \<in> {''resistor'', ''battery'', ''capacitor'', ''inductor''} then [(x - 30, y), (x + 30, y)]
      else if cmp \<in> {''voltmeter'', ''ammeter''} then [(x - 40, y), (x + 40, y)]
      else if cmp = ''ground'' then [(x, y)]
      else [])"

section \<open>Pin snapper\<close>

text \<open>
  \<open>CircuitCanvas.find_nearest_pin\<close> walks the pins of every component, then both
  endpoints of every wire, in list order. The pair \<open>(nearest_pin, nearest_dist)\<close> starts
  as \<open>(None, inf)\<close>, which is \<open>None\<close> here; afterwards it is \<open>Some (pin, dist)\<close>.
\<close>

definition candidates :: "canvas \<Rightarrow> point list" where
  "candidates c =
     concat (map (\<lambda>(cmp, pos). get_component_pins cmp pos) (components c))
     @ concat (map (\<lambda>(a, b). [a, b]) (lines c))"

definition consider_pin :: "point \<Rightarrow> (point \<times> int) option \<Rightarrow> point \<Rightarrow> (point \<times> int) option" where
  "consider_pin point best pin =
     (let dist = manhattanLength (psub pin point) in
      if dist < snap_threshold \<and> (case best of None \<Rightarrow> True | Some (_, nearest_dist) \<Rightarrow> dist < nearest_dist)
      then Some (pin, dist) else best)"

definition find_nearest_pin :: "canvas \<Rightarrow> point \<Rightarrow> point option" where
  "find_nearest_pin c point = map_option fst (foldl (consider_pin point) None (candidates c))"

section \<open>Node assigner\<close>

text \<open>
  The fields of \<open>NetlistGenerator\<close>. \<open>nodes\<close> is a dict, scanned in insertion order by
  \<open>_get_node\<close>: an association list with unique keys, in insertion order. \<open>ground_keys\<close>
  is a set that is only ever tested for membership.
\<close>

record generator =
  nodes :: "(point \<times> int) list"
  next_node_num :: int
  all_pins :: "point list"
  ground_keys :: "point set"

text \<open>\<open>NetlistGenerator.__init__\<close>.\<close>

definition init_generator :: generator where
  "init_generator = \<lparr>nodes = [], next_node_num = 1, all_pins = [], ground_keys = {}\<rparr>"

text \<open>\<open>d[key] = v\<close> on an insertion-ordered dict: an existing key keeps its place.\<close>

fun dict_set :: "('k \<times> 'v) list \<Rightarrow> 'k \<Rightarrow> 'v \<Rightarrow> ('k \<times> 'v) list" where
  "dict_set [] key v = [(key, v)]"
| "dict_set ((k, w) # d) key v = (if k = key then (k, v) # d else (k, w) # dict_set d key v)"

text \<open>The key \<open>_get_node\<close> works with: the snapped point when \<open>if snap:\<close> holds, else
  the point itself.\<close>

definition node_key :: "canvas \<Rightarrow> point \<Rightarrow> point" where
  "node_key c point =
     (case find_nearest_pin c point of
        None \<Rightarrow> point
      | Some snap \<Rightarrow> if qpoint_bool snap then snap else point)"

text \<open>The test of the scan over \<open>self.nodes.items()\<close>.\<close>

fun node_close :: "point \<Rightarrow> point \<times> int \<Rightarrow> bool" where
  "node_close key ((x, y), nid) = (\<bar>x - fst key\<bar> < grid_size \<and> \<bar>y - snd key\<bar> < grid_size)"

text \<open>\<open>NetlistGenerator._get_node\<close>: the returned value (\<open>None\<close> of Python is \<open>None\<close>) and
  the generator after the call.\<close>

definition get_node :: "canvas \<Rightarrow> generator \<Rightarrow> point \<Rightarrow> bool \<Rightarrow> int option \<times> generator" where
  "get_node c s point is_new_pin =
     (let key = node_key c point in
      if key \<in> ground_keys s then (Some 0, s)
      else case find (node_close key) (nodes s) of
        Some (_, nid) \<Rightarrow> (Some nid, s)
      | None \<Rightarrow>
          if is_new_pin
          then (Some (next_node_num s),
                s\<lparr>nodes := dict_set (nodes s) key (next_node_num s),
                  next_node_num := next_node_num s + 1\<rparr>)
          else (None, s))"

text \<open>\<open>NetlistGenerator._collect_all_pins\<close>: one loop over the components, one over the
  wires, after both tables are cleared. The test is
  \<open>comp_type.lower().strip() == "ground"\<close>, while \<open>get_component_pins\<close> and the serializer
  compare the tag itself.\<close>

fun collect_component :: "generator \<Rightarrow> kind \<times> point \<Rightarrow> generator" where
  "collect_component s (comp_type, pos) =
     (if py_strip (py_lower comp_type) = ''ground''
      then s\<lparr>ground_keys := insert pos (ground_keys s), all_pins := all_pins s @ [pos]\<rparr>
      else s\<lparr>all_pins := all_pins s @ get_component_pins comp_type pos\<rparr>)"

fun collect_line :: "generator \<Rightarrow> point \<times> point \<Rightarrow> generator" where
  "collect_line s (a, b) = s\<lparr>all_pins := all_pins s @ [a, b]\<rparr>"

definition collect_all_pins :: "canvas \<Rightarrow> generator \<Rightarrow> generator" where
  "collect_all_pins c s =
     foldl collect_line
       (foldl collect_component (s\<lparr>all_pins := [], ground_keys := {}\<rparr>) (components c))
       (lines c)"

text \<open>The creation pass: \<open>for p in self.all_pins: self._get_node(p, is_new_pin=True)\<close>.\<close>

definition create_pass :: "canvas \<Rightarrow> generator \<Rightarrow> point list \<Rightarrow> generator" where
  "create_pass c s ps = foldl (\<lambda>s p. snd (get_node c s p True)) s ps"

section \<open>Wire connectivity graph\<close>

text \<open>
  Python exceptions that the generation can raise. \<open>ValueError_shorted comp n\<close> is
  \<open>ValueError(f"{comp} shorted ... both pins map to node {n}")\<close>: it carries the two values
  the message is formatted from. \<open>UnboundLocalError\<close> is the read of a local that no
  branch has bound.
\<close>

datatype error = KeyError | IndexError | UnboundLocalError | ValueError_shorted kind int

text \<open>
  \<open>wire_adj\<close> is a dict from node id to a set of node ids. Its keys are iterated in
  insertion order. The set of neighbours is kept as a list without duplicates, in
  insertion order; Python iterates the set in hash order, which decides only the order
  of the members inside one group.
\<close>

type_synonym adjacency = "(int \<times> int list) list"

text \<open>\<open>wire_adj.setdefault(a, set()).add(b)\<close>.\<close>

definition setdefault_add :: "adjacency \<Rightarrow> int \<Rightarrow> int \<Rightarrow> adjacency" where
  "setdefault_add wire_adj a b =
     (case map_of wire_adj a of
        None \<Rightarrow> wire_adj @ [(a, [b])]
      | Some bs \<Rightarrow> dict_set wire_adj a (if b \<in> set bs then bs else bs @ [b]))"

definition add :: "adjacency \<Rightarrow> int \<Rightarrow> int \<Rightarrow> adjacency" where
  "add wire_adj a b = setdefault_add (setdefault_add wire_adj a b) b a"

text \<open>The loop over \<open>self.canvas.lines\<close> that fills \<open>wire_adj\<close> with lookup-only calls.\<close>

fun build_wire_adj :: "canvas \<Rightarrow> (point \<times> point) list \<Rightarrow> generator \<times> adjacency \<Rightarrow> generator \<times> adjacency" where
  "build_wire_adj c [] (s, wire_adj) = (s, wire_adj)"
| "build_wire_adj c ((a, b) # ls) (s, wire_adj) =
     (case get_node c s a False of (n1, s1) \<Rightarrow>
      case get_node c s1 b False of (n2, s2) \<Rightarrow>
        (case (n1, n2) of
           (Some m1, Some m2) \<Rightarrow> build_wire_adj c ls (s2, add wire_adj m1 m2)
         | _ \<Rightarrow> build_wire_adj c ls (s2, wire_adj)))"

text \<open>
  The inner \<open>while stack:\<close> loop. The head of the list is the top of the stack, so the
  neighbours pushed by \<open>stack.append\<close> end up reversed in front of it. \<open>visited.add\<close> and
  \<open>g.append\<close> come before \<open>wire_adj[cur]\<close>, which raises \<open>KeyError\<close> on a missing key.
\<close>

function traverse :: "adjacency \<Rightarrow> int list \<Rightarrow> int set \<Rightarrow> int list \<Rightarrow> error + (int set \<times> int list)" where
  "traverse wire_adj [] visited g = Inr (visited, g)"
| "traverse wire_adj (cur # stack) visited g =
     (if cur \<in> visited then traverse wire_adj stack visited g
      else case map_of wire_adj cur of
        None \<Rightarrow> Inl KeyError
      | Some nbrs \<Rightarrow>
          traverse wire_adj
            (rev (filter (\<lambda>nx. nx \<notin> insert cur visited) nbrs) @ stack)
            (insert cur visited) (g @ [cur]))"
  by pat_completeness auto
termination
proof (relation "measures [\<lambda>(wire_adj, stack, visited, g). card (fst ` set wire_adj - visited),
                           \<lambda>(wire_adj, stack, visited, g). length stack]")
  show "wf (measures [\<lambda>(wire_adj, stack, visited, g). card (fst ` set wire_adj - visited),
                      \<lambda>(wire_adj, stack, visited, g). length stack])"
    by simp
next
  fix wire_adj :: adjacency and cur :: int and stack :: "int list" and visited :: "int set" and g :: "int list"
  assume "cur \<in> visited"
  then show "((wire_adj, stack, visited, g), (wire_adj, cur # stack, visited, g))
      \<in> measures [\<lambda>(wire_adj, stack, visited, g). card (fst ` set wire_adj - visited),
                  \<lambda>(wire_adj, stack, visited, g). length stack]"
    by simp
next
  fix wire_adj :: adjacency and cur :: int and stack :: "int list" and visited :: "int set" and nbrs :: "int list" and g :: "int list"
  assume nv: "cur \<notin> visited" and key: "map_of wire_adj cur = Some nbrs"
  from key have "cur \<in> fst ` set wire_adj"
    by (auto dest!: map_of_SomeD intro: rev_image_eqI)
  with nv have "fst ` set wire_adj - insert cur visited \<subset> fst ` set wire_adj - visited"
    by auto
  then have "card (fst ` set wire_adj - insert cur visited) < card (fst ` set wire_adj - visited)"
    by (intro psubset_card_mono) auto
  then show "((wire_adj, rev (filter (\<lambda>nx. nx \<notin> insert cur visited) nbrs) @ stack,
               insert cur visited, g @ [cur]), (wire_adj, cur # stack, visited, g))
      \<in> measures [\<lambda>(wire_adj, stack, visited, g). card (fst ` set wire_adj - visited),
                  \<lambda>(wire_adj, stack, visited, g). length stack]"
    by simp
qed

text \<open>The outer loop \<open>for n in wire_adj:\<close> over the keys, which collects the groups.\<close>

fun find_groups :: "adjacency \<Rightarrow> int list \<Rightarrow> int set \<Rightarrow> int list list \<Rightarrow> error + int list list" where
  "find_groups wire_adj [] visited groups = Inr groups"
| "find_groups wire_adj (n # ns) visited groups =
     (if n \<in> visited then find_groups wire_adj ns visited groups
      else case traverse wire_adj [n] visited [] of
        Inl e \<Rightarrow> Inl e
      | Inr (visited', g) \<Rightarrow> find_groups wire_adj ns visited' (groups @ [g]))"

section \<open>Node merger\<close>

text \<open>\<open>merge\<close> is a dict that is only written and looked up: a map.\<close>

type_synonym merge_table = "int \<rightharpoonup> int"

text \<open>\<open>for nid in g: merge[nid] = v\<close>.\<close>

definition assign_group :: "merge_table \<Rightarrow> int list \<Rightarrow> int \<Rightarrow> merge_table" where
  "assign_group merge g v = foldl (\<lambda>m nid. m(nid \<mapsto> v)) merge g"

text \<open>Step 1: \<open>if any((nid == 0) for nid in g)\<close>, the whole group becomes 0.\<close>

definition merge_step1 :: "int list list \<Rightarrow> merge_table \<Rightarrow> merge_table" where
  "merge_step1 groups merge =
     foldl (\<lambda>m g. if list_ex (\<lambda>nid. nid = 0) g then assign_group m g 0 else m) merge groups"

text \<open>Step 2: a group with a member already merged to 0 is skipped; every other group takes
  \<open>next_id\<close>, which then grows by one.\<close>

fun merge_step2 :: "int list list \<Rightarrow> merge_table \<times> int \<Rightarrow> merge_table \<times> int" where
  "merge_step2 [] (merge, next_id) = (merge, next_id)"
| "merge_step2 (g # gs) (merge, next_id) =
     (if list_ex (\<lambda>n. merge n = Some 0) g then merge_step2 gs (merge, next_id)
      else merge_step2 gs (assign_group merge g next_id, next_id + 1))"

text \<open>Step 3: the loop over \<open>self.nodes.items()\<close> for the ids that are in no group.\<close>

fun merge_step3 :: "(point \<times> int) list \<Rightarrow> point set \<Rightarrow> merge_table \<times> int \<Rightarrow> merge_table \<times> int" where
  "merge_step3 [] gk (merge, next_id) = (merge, next_id)"
| "merge_step3 ((p_key, nid) # ns) gk (merge, next_id) =
     (if merge nid = None
      then (if p_key \<in> gk then merge_step3 ns gk (merge(nid \<mapsto> 0), next_id)
            else merge_step3 ns gk (merge(nid \<mapsto> next_id), next_id + 1))
      else merge_step3 ns gk (merge, next_id))"

definition merge_nodes :: "int list list \<Rightarrow> (point \<times> int) list \<Rightarrow> point set \<Rightarrow> merge_table" where
  "merge_nodes groups nds gk =
     fst (merge_step3 nds gk (merge_step2 groups (merge_step1 groups Map.empty, 1)))"

section \<open>Netlist serializer\<close>

text \<open>\<open>str\<close> of a Python integer, as the f-string formats it.\<close>

definition digit_char :: "nat \<Rightarrow> char" where
  "digit_char n = ''0123456789'' ! n"

function str_nat :: "nat \<Rightarrow> string" where
  "str_nat n = (if n < 10 then [digit_char n] else str_nat (n div 10) @ [digit_char (n mod 10)])"
  by pat_completeness auto
termination
  by (relation "measure id") auto

declare str_nat.simps [simp del]

definition str_int :: "int \<Rightarrow> string" where
  "str_int i = (if i < 0 then CHR ''-'' # str_nat (nat (- i)) else str_nat (nat i))"

text \<open>\<open>"\n".join(netlist)\<close>.\<close>

fun join_lines :: "string list \<Rightarrow> string" where
  "join_lines [] = []"
| "join_lines [l] = l"
| "join_lines (l # l' # ls) = l @ [CHR 0x0A] @ join_lines (l' # ls)"

text \<open>The caller's value map, read with \<open>values.get(prefix, default)\<close>.\<close>

type_synonym values_map = "string \<rightharpoonup> string"

definition dict_get :: "('k \<rightharpoonup> 'v) \<Rightarrow> 'k \<Rightarrow> 'v \<Rightarrow> 'v" where
  "dict_get d k dflt = (case d k of None \<Rightarrow> dflt | Some v \<Rightarrow> v)"

text \<open>The \<open>if\<close>/\<open>elif\<close> chain that binds \<open>prefix, val\<close>; it has no \<open>else\<close>, so no other
  kind binds them.\<close>

definition prefix_val :: "values_map \<Rightarrow> kind \<Rightarrow> (string \<times> string) option" where
  "prefix_val vals cmp =
     (if cmp = ''resistor'' then Some (''R'', dict_get vals ''R'' ''100'')
      else if cmp = ''battery'' then Some (''V'', dict_get vals ''V'' ''5'')
      else if cmp = ''capacitor'' then Some (''C'', dict_get vals ''C'' ''1e-6'')
      else if cmp = ''inductor'' then Some (''L'', dict_get vals ''L'' ''1e-3'')
      else None)"

text \<open>\<open>f"{prefix}{counts[comp]} {n1} {n2} {val}"\<close>.\<close>

definition format_line :: "string \<Rightarrow> int \<Rightarrow> int \<Rightarrow> int \<Rightarrow> string \<Rightarrow> string" where
  "format_line prefix cnt n1 n2 val =
     prefix @ str_int cnt @ '' '' @ str_int n1 @ '' '' @ str_int n2 @ '' '' @ val"

text \<open>\<open>merge[self._get_node(pin)]\<close>: a missing key, \<open>None\<close> included, raises \<open>KeyError\<close>.\<close>

definition merge_lookup :: "merge_table \<Rightarrow> int option \<Rightarrow> error + int" where
  "merge_lookup merge r =
     (case r of
        None \<Rightarrow> Inl KeyError
      | Some nid \<Rightarrow> (case merge nid of None \<Rightarrow> Inl KeyError | Some n \<Rightarrow> Inr n))"

text \<open>
  The loop over \<open>self.canvas.components\<close>. \<open>counts\<close> is a dict with the four electrical
  kinds as keys and is read at those keys only: a function from tags. \<open>pins[0]\<close> and
  \<open>pins[1]\<close> raise \<open>IndexError\<close> on a list that is too short, each where it is evaluated.
  The result carries the generator as it is when the loop ends or raises.
\<close>

fun serialize :: "canvas \<Rightarrow> merge_table \<Rightarrow> values_map \<Rightarrow> (kind \<times> point) list
    \<Rightarrow> generator \<times> (kind \<Rightarrow> int) \<times> string list \<Rightarrow> (error + string list) \<times> generator" where
  "serialize c merge vals [] (s, counts, netlist) = (Inr netlist, s)"
| "serialize c merge vals ((cmp, pos) # cs) (s, counts, netlist) =
     (if cmp \<in> {''voltmeter'', ''ammeter''} then serialize c merge vals cs (s, counts, netlist)
      else if cmp = ''ground'' then serialize c merge vals cs (s, counts, netlist)
      else case get_component_pins cmp pos of
        [] \<Rightarrow> (Inl IndexError, s)
      | pin0 # pins \<Rightarrow>
          (case get_node c s pin0 False of (r1, s1) \<Rightarrow>
           case merge_lookup merge r1 of
             Inl e \<Rightarrow> (Inl e, s1)
           | Inr n1 \<Rightarrow>
          (case pins of
             [] \<Rightarrow> (Inl IndexError, s1)
           | pin1 # _ \<Rightarrow>
          (case get_node c s1 pin1 False of (r2, s2) \<Rightarrow>
           case merge_lookup merge r2 of
             Inl e \<Rightarrow> (Inl e, s2)
           | Inr n2 \<Rightarrow>
               if n1 = n2 then (Inl (ValueError_shorted cmp n1), s2)
               else (let counts' = counts(cmp := counts cmp + 1) in
                     case prefix_val vals cmp of
                       None \<Rightarrow> (Inl UnboundLocalError, s2)
                     | Some (prefix, val) \<Rightarrow>
                         serialize c merge vals cs
                           (s2, counts', netlist @ [format_line prefix (counts' cmp) n1 n2 val]))))))"

section \<open>The generation run\<close>

text \<open>The first part of \<open>generate_netlist\<close>: the reset of the node table,
  \<open>_collect_all_pins\<close> and the creation pass.\<close>

definition assign_nodes :: "canvas \<Rightarrow> generator \<Rightarrow> generator" where
  "assign_nodes c s0 =
     (let s1 = s0\<lparr>nodes := [], next_node_num := 1\<rparr>;
          s2 = collect_all_pins c s1
      in create_pass c s2 (all_pins s2))"

text \<open>The middle part: the wire graph, its groups and the merge table, with the generator
  as the lookup-only calls leave it.\<close>

definition build_merge :: "canvas \<Rightarrow> generator \<Rightarrow> (error + merge_table) \<times> generator" where
  "build_merge c s3 =
     (case build_wire_adj c (lines c) (s3, []) of (s4, wire_adj) \<Rightarrow>
      case find_groups wire_adj (map fst wire_adj) {} [] of
        Inl e \<Rightarrow> (Inl e, s4)
      | Inr groups \<Rightarrow> (Inr (merge_nodes groups (nodes s4) (ground_keys s4)), s4))"

text \<open>\<open>NetlistGenerator.generate_netlist\<close>, from a generator in any state.\<close>

definition generate_netlist :: "generator \<Rightarrow> canvas \<Rightarrow> values_map \<Rightarrow> (error + string) \<times> generator" where
  "generate_netlist s0 c vals =
     (case build_merge c (assign_nodes c s0) of
        (Inl e, s4) \<Rightarrow> (Inl e, s4)
      | (Inr merge, s4) \<Rightarrow>
          (case serialize c merge vals (components c) (s4, (\<lambda>_. 0), []) of
             (Inl e, s5) \<Rightarrow> (Inl e, s5)
           | (Inr netlist, s5) \<Rightarrow> (Inr (join_lines netlist), s5)))"

text \<open>The final node of a pin, as the serializer computes it:
  \<open>merge[self._get_node(pin)]\<close> on the tables of the run.\<close>

definition final_node :: "canvas \<Rightarrow> generator \<Rightarrow> point \<Rightarrow> error + int" where
  "final_node c s0 pin =
     (case build_merge c (assign_nodes c s0) of
        (Inl e, s4) \<Rightarrow> Inl e
      | (Inr merge, s4) \<Rightarrow> merge_lookup merge (fst (get_node c s4 pin False)))"

section \<open>Auxiliary predicates\<close>

text \<open>The loop invariant of the scan: what \<open>(nearest_pin, nearest_dist)\<close> holds about the
  candidates \<open>S\<close> seen so far.\<close>

definition best_ok :: "point \<Rightarrow> point set \<Rightarrow> (point \<times> int) option \<Rightarrow> bool" where
  "best_ok point S best =
     (case best of
        None \<Rightarrow> \<forall>r\<in>S. \<not> manhattanLength (psub r point) < snap_threshold
      | Some (q, d) \<Rightarrow> q \<in> S \<and> d = manhattanLength (psub q point) \<and> d < snap_threshold
          \<and> (\<forall>r\<in>S. d \<le> manhattanLength (psub r point)))"

text \<open>The invariant of the node table: no key is a ground anchor, the ids are positive
  and below the counter, and neither a key nor an id is stored twice.\<close>

definition nodes_inv :: "generator \<Rightarrow> bool" where
  "nodes_inv s =
     ((\<forall>k n. (k, n) \<in> set (nodes s) \<longrightarrow> k \<notin> ground_keys s \<and> 1 \<le> n \<and> n < next_node_num s)
      \<and> 1 \<le> next_node_num s \<and> distinct (map fst (nodes s)) \<and> distinct (map snd (nodes s)))"

text \<open>The generator after the first \<open>i\<close> calls of the creation pass.\<close>

definition creation_upto :: "canvas \<Rightarrow> generator \<Rightarrow> nat \<Rightarrow> generator" where
  "creation_upto c s0 i =
     (let s1 = s0\<lparr>nodes := [], next_node_num := 1\<rparr>;
          s2 = collect_all_pins c s1
      in create_pass c s2 (take i (all_pins s2)))"

text \<open>Every neighbour stored in \<open>wire_adj\<close> is itself a key of it.\<close>

definition adj_closed :: "adjacency \<Rightarrow> bool" where
  "adj_closed wire_adj =
     (\<forall>k bs n. map_of wire_adj k = Some bs \<longrightarrow> n \<in> set bs \<longrightarrow> map_of wire_adj n \<noteq> None)"

text \<open>No node id is a member of two groups of the list.\<close>

fun disjoint_groups :: "int list list \<Rightarrow> bool" where
  "disjoint_groups [] = True"
| "disjoint_groups (g # gs) = ((\<forall>h\<in>set gs. set g \<inter> set h = {}) \<and> disjoint_groups gs)"

text \<open>The four kinds for which the serializer writes a line.\<close>

definition electrical :: "kind \<Rightarrow> bool" where
  "electrical cmp = (cmp \<in> {''resistor'', ''battery'', ''capacitor'', ''inductor''})"

text \<open>The three kinds that the serializer skips.\<close>

definition skipped :: "kind \<Rightarrow> bool" where
  "skipped cmp = (cmp \<in> {''voltmeter'', ''ammeter'', ''ground''})"

text \<open>A lookup-only call, \<open>self._get_node(pin)\<close>: its returned value.\<close>

definition lookup_node :: "canvas \<Rightarrow> generator \<Rightarrow> point \<Rightarrow> int option" where
  "lookup_node c s pin = fst (get_node c s pin False)"

text \<open>The \<open>wire_adj\<close> that the loop over the wires builds from the empty dict.\<close>

definition wire_graph :: "canvas \<Rightarrow> generator \<Rightarrow> adjacency" where
  "wire_graph c s = snd (build_wire_adj c (lines c) (s, []))"

text \<open>The netlist format in the words of the specification: the prefix of a kind, its
  default value, and the value taken from the caller's map under that prefix.\<close>

definition spec_prefix :: "kind \<Rightarrow> string" where
  "spec_prefix cmp =
     (if cmp = ''resistor'' then ''R'' else if cmp = ''battery'' then ''V''
      else if cmp = ''capacitor'' then ''C'' else if cmp = ''inductor'' then ''L'' else [])"

definition spec_default :: "kind \<Rightarrow> string" where
  "spec_default cmp =
     (if cmp = ''resistor'' then ''100'' else if cmp = ''battery'' then ''5''
      else if cmp = ''capacitor'' then ''1e-6'' else if cmp = ''inductor'' then ''1e-3'' else [])"

definition spec_value :: "values_map \<Rightarrow> kind \<Rightarrow> string" where
  "spec_value vals cmp = (case vals (spec_prefix cmp) of None \<Rightarrow> spec_default cmp | Some v \<Rightarrow> v)"

text \<open>The instance index in the words of the specification: the number of components of
  that kind in the list up to and including this one.\<close>

definition kind_count :: "kind \<Rightarrow> (kind \<times> point) list \<Rightarrow> int" where
  "kind_count cmp cs = int (length (filter (\<lambda>cp. fst cp = cmp) cs))"

text \<open>The lines in the words of the specification: one line per electrical component, in
  list order, \<open><prefix><index> <node1> <node2> <value>\<close>, where \<open>node\<close> gives the final node
  of a pin and \<open>before\<close> holds the components already passed.\<close>

fun spec_lines :: "(point \<Rightarrow> int) \<Rightarrow> values_map \<Rightarrow> (kind \<times> point) list \<Rightarrow> (kind \<times> point) list
    \<Rightarrow> string list" where
  "spec_lines node vals before [] = []"
| "spec_lines node vals before ((cmp, pos) # rest) =
     (if electrical cmp
      then [spec_prefix cmp @ str_int (kind_count cmp (before @ [(cmp, pos)]))
              @ '' '' @ str_int (node (get_component_pins cmp pos ! 0))
              @ '' '' @ str_int (node (get_component_pins cmp pos ! 1))
              @ '' '' @ spec_value vals cmp]
      else [])
     @ spec_lines node vals (before @ [(cmp, pos)]) rest"

text \<open>Both pins of a component resolve, to two different final nodes.\<close>


definition pins_resolve :: "(point \<Rightarrow> error + int) \<Rightarrow> kind \<times> point \<Rightarrow> bool" where
  "pins_resolve fnode cp =
     (\<exists>n1 n2. fnode (get_component_pins (fst cp) (snd cp) ! 0) = Inr n1
        \<and> fnode (get_component_pins (fst cp) (snd cp) ! 1) = Inr n2 \<and> n1 \<noteq> n2)"

text \<open>The serializer loop gets past a component without raising: it skips it, or resolves
  its two pins to two different final nodes.\<close>

definition passes :: "(point \<Rightarrow> error + int) \<Rightarrow> kind \<times> point \<Rightarrow> bool" where
  "passes fnode cp = (skipped (fst cp) \<or> (electrical (fst cp) \<and> pins_resolve fnode cp))"

text \<open>The groups without the ground node, in the order of the list.\<close>

definition nonground :: "int list list \<Rightarrow> int list list" where
  "nonground groups = filter (\<lambda>g. 0 \<notin> set g) groups"

text \<open>The entries of the node table whose id is in no group, in table order.\<close>

definition isolated :: "int list list \<Rightarrow> (point \<times> int) list \<Rightarrow> (point \<times> int) list" where
  "isolated groups nds = filter (\<lambda>e. \<forall>g\<in>set groups. snd e \<notin> set g) nds"

text \<open>How many of the first \<open>j\<close> entries are not ground anchors: the fresh ids that step 3
  has handed out before it reaches entry \<open>j\<close>.\<close>

definition fresh_before :: "point set \<Rightarrow> (point \<times> int) list \<Rightarrow> nat \<Rightarrow> int" where
  "fresh_before gk es j = int (length (filter (\<lambda>e. fst e \<notin> gk) (take j es)))"

text \<open>The edges of \<open>wire_adj\<close>: \<open>b in wire_adj[a]\<close>, as a predicate and as a relation.\<close>

definition wire_edge :: "adjacency \<Rightarrow> int \<Rightarrow> int \<Rightarrow> bool" where
  "wire_edge wire_adj a b = (\<exists>bs. map_of wire_adj a = Some bs \<and> b \<in> set bs)"

definition wired :: "adjacency \<Rightarrow> (int \<times> int) set" where
  "wired wire_adj = {(a, b). wire_edge wire_adj a b}"

text \<open>The nodes that a chain of edges joins to \<open>n\<close>, with \<open>n\<close> itself.\<close>

definition component_of :: "adjacency \<Rightarrow> int \<Rightarrow> int set" where
  "component_of wire_adj n = {v. (n, v) \<in> (wired wire_adj)\<^sup>*}"

section \<open>Example canvases\<close>

text \<open>A ground anchor wired to the left pin of a resistor.\<close>

definition ground_wire_canvas :: canvas where
  "ground_wire_canvas =
     \<lparr>components = [(''ground'', (100, 100)), (''resistor'', (200, 100))],
      lines = [((100, 100), (170, 100))]\<rparr>"

text \<open>One component with the tag of the delete tool, as \<open>mouseReleaseEvent\<close> appends it on
  a release with a stale \<open>start_point\<close>.\<close>

definition delete_canvas :: canvas where
  "delete_canvas = \<lparr>components = [(''delete'', (100, 100))], lines = []\<rparr>"


text \<open>A battery and a resistor, each with its two pins joined by a wire of its own.\<close>

definition two_short_canvas :: canvas where
  "two_short_canvas =
     \<lparr>components = [(''battery'', (200, 100)), (''resistor'', (200, 300))],
      lines = [((170, 100), (230, 100)), ((170, 300), (230, 300))]\<rparr>"

text \<open>A ground anchor that no wire touches, and two resistors with one wire from the right
  pin of the first to the left pin of the second.\<close>

definition chain_canvas :: canvas where
  "chain_canvas =
     \<lparr>components = [(''ground'', (100, 100)), (''resistor'', (200, 100)), (''resistor'', (200, 300))],
      lines = [((230, 100), (170, 300))]\<rparr>"

text \<open>A battery without wires and a resistor whose two pins are joined by one wire.\<close>

definition short_canvas :: canvas where
  "short_canvas =
     \<lparr>components = [(''battery'', (200, 300)), (''resistor'', (200, 100))],
      lines = [((170, 100), (230, 100))]\<rparr>"

text \<open>A battery and a resistor in a loop through two ground anchors: the left pin of the
  battery and the right pin of the resistor are wired to ground, and two chained wires
  join the other two pins.\<close>

definition loop_canvas :: canvas where
  "loop_canvas =
     \<lparr>components = [(''battery'', (0, 0)), (''ground'', (-100, 100)), (''resistor'', (200, 0)), (''ground'', (300, 100))],
      lines = [((-30, 0), (-100, 100)), ((30, 0), (100, 0)), ((100, 0), (170, 0)), ((230, 0), (300, 100))]\<rparr>"

text \<open>A ground anchor that no wire touches, beside a resistor.\<close>

definition lone_ground_canvas :: canvas where
  "lone_ground_canvas = \<lparr>components = [(''ground'', (100, 100)), (''resistor'', (200, 100))], lines = []\<rparr>"

text \<open>A ground anchor that no wire touches, with the left pin of a resistor on it.\<close>

definition ground_pin_canvas :: canvas where
  "ground_pin_canvas = \<lparr>components = [(''ground'', (100, 100)), (''resistor'', (130, 100))], lines = []\<rparr>"

section \<open>Properties of the pin snapper\<close>

lemma consider_pin_ok:
  "best_ok point S best \<Longrightarrow> best_ok point (insert pin S) (consider_pin point best pin)"
  by (cases best) (auto simp: best_ok_def consider_pin_def Let_def)

lemma foldl_consider_pin_ok:
  "best_ok point S best \<Longrightarrow> best_ok point (S \<union> set cs) (foldl (consider_pin point) best cs)"
proof (induction cs arbitrary: S best)
  case Nil
  then show ?case by simp
next
  case (Cons pin cs)
  from consider_pin_ok [OF Cons.prems]
  have "best_ok point (insert pin S \<union> set cs) (foldl (consider_pin point) (consider_pin point best pin) cs)"
    by (rule Cons.IH)
  then show ?case by simp
qed

lemma scan_ok: "best_ok point (set (candidates c)) (foldl (consider_pin point) None (candidates c))"
  using foldl_consider_pin_ok [of point "{}" None "candidates c"] by (simp add: best_ok_def)

text \<open>
  C6. The pin snapper returns a candidate (component pin or wire endpoint) whose Manhattan
  distance to the query point is strictly below the tolerance 50 and minimal among all
  candidates; it returns none exactly when no candidate is strictly within the tolerance.
\<close>

theorem find_nearest_pin_nearest:
  "(case find_nearest_pin c point of
      None \<Rightarrow> \<forall>r\<in>set (candidates c). 50 \<le> manhattanLength (psub r point)
    | Some q \<Rightarrow> q \<in> set (candidates c) \<and> manhattanLength (psub q point) < 50
        \<and> (\<forall>r\<in>set (candidates c). manhattanLength (psub q point) \<le> manhattanLength (psub r point)))"
  using scan_ok [of point c]
  by (auto simp: find_nearest_pin_def best_ok_def snap_threshold_def not_less split: option.splits)

theorem find_nearest_pin_nearest_witness:
  "find_nearest_pin \<lparr>components = [(''resistor'', (100, 100))], lines = [((200, 100), (300, 100))]\<rparr> (75, 100)
     = Some (70, 100)
   \<and> manhattanLength (psub (70, 100) (75, 100)) < 50
   \<and> candidates \<lparr>components = [(''resistor'', (100, 100))], lines = [((200, 100), (300, 100))]\<rparr>
       = [(70, 100), (130, 100), (200, 100), (300, 100)]
   \<and> manhattanLength (psub (70, 100) (75, 100)) \<le> manhattanLength (psub (130, 100) (75, 100))
   \<and> manhattanLength (psub (70, 100) (75, 100)) \<le> manhattanLength (psub (200, 100) (75, 100))
   \<and> manhattanLength (psub (70, 100) (75, 100)) \<le> manhattanLength (psub (300, 100) (75, 100))
   \<and> find_nearest_pin \<lparr>components = [(''resistor'', (100, 100))], lines = []\<rparr> (100, 200) = None"
  using find_nearest_pin_nearest
          [of "\<lparr>components = [(''resistor'', (100, 100))], lines = [((200, 100), (300, 100))]\<rparr>" "(75, 100)"]
  by (simp add: find_nearest_pin_def candidates_def consider_pin_def snap_threshold_def)

section \<open>Properties of the node assigner\<close>

lemma manhattan_zero: "manhattanLength (psub q p) \<le> 0 \<Longrightarrow> q = p"
  by (cases q; cases p) auto

lemma node_key_candidate: "p \<in> set (candidates c) \<Longrightarrow> node_key c p = p"
proof -
  assume p: "p \<in> set (candidates c)"
  have d0: "manhattanLength (psub p p) = 0" by (cases p) simp
  have ok: "best_ok p (set (candidates c)) (foldl (consider_pin p) None (candidates c))"
    by (rule scan_ok)
  show ?thesis
  proof (cases "foldl (consider_pin p) None (candidates c)")
    case None
    with ok p d0 show ?thesis by (auto simp: best_ok_def snap_threshold_def)
  next
    case (Some qd)
    obtain q d where qd: "qd = (q, d)" by (cases qd)
    from ok Some qd p d0 have "manhattanLength (psub q p) \<le> 0"
      by (auto simp: best_ok_def)
    then have "q = p" by (rule manhattan_zero)
    with Some qd show ?thesis by (simp add: node_key_def find_nearest_pin_def)
  qed
qed

lemma get_node_lookup_state [simp]: "snd (get_node c s p False) = s"
  by (simp add: get_node_def Let_def split: option.splits prod.splits)

lemma get_node_ground_keys [simp]: "ground_keys (snd (get_node c s p b)) = ground_keys s"
  by (simp add: get_node_def Let_def split: option.splits prod.splits)

lemma get_node_all_pins [simp]: "all_pins (snd (get_node c s p b)) = all_pins s"
  by (simp add: get_node_def Let_def split: option.splits prod.splits)

lemma dict_set_fresh: "key \<notin> fst ` set d \<Longrightarrow> dict_set d key v = d @ [(key, v)]"
  by (induction d) auto

lemma find_close_None_fresh:
  "find (node_close key) nds = None \<Longrightarrow> key \<notin> fst ` set nds"
proof
  assume none: "find (node_close key) nds = None" and "key \<in> fst ` set nds"
  then obtain n where "(key, n) \<in> set nds" by auto
  moreover have "node_close key (key, n)" by (cases key) (simp add: grid_size_def)
  ultimately show False using none by (metis find_None_iff)
qed

lemma get_node_cases:
  obtains (ground) "node_key c p \<in> ground_keys s" "get_node c s p b = (Some 0, s)"
  | (found) k nid where "node_key c p \<notin> ground_keys s"
      "find (node_close (node_key c p)) (nodes s) = Some (k, nid)" "get_node c s p b = (Some nid, s)"
  | (created) "node_key c p \<notin> ground_keys s" "find (node_close (node_key c p)) (nodes s) = None" "b"
      "get_node c s p b = (Some (next_node_num s),
         s\<lparr>nodes := nodes s @ [(node_key c p, next_node_num s)], next_node_num := next_node_num s + 1\<rparr>)"
  | (missing) "node_key c p \<notin> ground_keys s" "find (node_close (node_key c p)) (nodes s) = None" "\<not> b"
      "get_node c s p b = (None, s)"
proof (cases "node_key c p \<in> ground_keys s")
  case True
  then show ?thesis using ground by (simp add: get_node_def)
next
  case ng: False
  show ?thesis
  proof (cases "find (node_close (node_key c p)) (nodes s)")
    case None
    then have "node_key c p \<notin> fst ` set (nodes s)" by (rule find_close_None_fresh)
    then have "dict_set (nodes s) (node_key c p) (next_node_num s) = nodes s @ [(node_key c p, next_node_num s)]"
      by (rule dict_set_fresh)
    with ng None show ?thesis using created missing by (cases b) (simp_all add: get_node_def)
  next
    case (Some kn)
    then show ?thesis using ng found by (cases kn) (simp add: get_node_def)
  qed
qed

lemma get_node_inv: "nodes_inv s \<Longrightarrow> nodes_inv (snd (get_node c s p b))"
proof (cases rule: get_node_cases [of c p s b])
  case created
  assume inv: "nodes_inv s"
  from created(2) have "node_key c p \<notin> fst ` set (nodes s)" by (rule find_close_None_fresh)
  moreover from inv have "next_node_num s \<notin> snd ` set (nodes s)" by (fastforce simp: nodes_inv_def)
  ultimately show ?thesis using inv created by (fastforce simp: nodes_inv_def)
qed simp_all

lemma create_pass_inv: "nodes_inv s \<Longrightarrow> nodes_inv (create_pass c s ps)"
  unfolding create_pass_def by (induction ps arbitrary: s) (auto intro: get_node_inv)

lemma create_pass_ground_keys [simp]: "ground_keys (create_pass c s ps) = ground_keys s"
  unfolding create_pass_def by (induction ps arbitrary: s) auto

lemma collect_nodes [simp]:
  "nodes (foldl collect_line s ls) = nodes s" "next_node_num (foldl collect_line s ls) = next_node_num s"
  "nodes (foldl collect_component s cs) = nodes s" "next_node_num (foldl collect_component s cs) = next_node_num s"
     apply (induction ls arbitrary: s; auto)
    apply (induction ls arbitrary: s; auto)
   apply (induction cs arbitrary: s; auto)
  apply (induction cs arbitrary: s; auto)
  done

lemma creation_upto_inv: "nodes_inv (creation_upto c s0 i)"
  unfolding creation_upto_def Let_def
  by (rule create_pass_inv) (simp add: nodes_inv_def collect_all_pins_def)

lemma assign_nodes_upto: "assign_nodes c s0 = creation_upto c s0 (length (all_pins (collect_all_pins c (s0\<lparr>nodes := [], next_node_num := 1\<rparr>))))"
  by (simp add: assign_nodes_def creation_upto_def Let_def)

lemma generator_reset:
  "(s :: generator)\<lparr>nodes := a, next_node_num := b, all_pins := p, ground_keys := g\<rparr>
     = \<lparr>nodes = a, next_node_num = b, all_pins = p, ground_keys = g\<rparr>"
  by (cases s) simp

lemma assign_nodes_reset: "assign_nodes c s0 = assign_nodes c s0'"
  by (simp add: assign_nodes_def collect_all_pins_def Let_def generator_reset)

section \<open>Properties of the wire graph and its groups\<close>

lemma build_wire_adj_state [simp]: "fst (build_wire_adj c ls (s, wire_adj)) = s"
proof (induction ls arbitrary: wire_adj)
  case Nil
  show ?case by simp
next
  case (Cons l ls)
  obtain a b where l: "l = (a, b)" by (cases l)
  have 1: "get_node c s a False = (fst (get_node c s a False), s)"
    by (metis get_node_lookup_state prod.collapse)
  have 2: "get_node c s b False = (fst (get_node c s b False), s)"
    by (metis get_node_lookup_state prod.collapse)
  show ?case unfolding l build_wire_adj.simps
    by (subst 1, simp only: prod.case, subst 2, simp only: prod.case)
       (simp add: Cons.IH split: option.splits)
qed

lemma map_of_dict_set: "map_of (dict_set d k v) = (map_of d)(k \<mapsto> v)"
  by (induction d) (auto simp: fun_eq_iff)

lemma map_of_setdefault_add:
  "map_of (setdefault_add wire_adj a b) =
     (map_of wire_adj)(a \<mapsto> (case map_of wire_adj a of None \<Rightarrow> [b]
                                | Some bs \<Rightarrow> if b \<in> set bs then bs else bs @ [b]))"
  by (auto simp: setdefault_add_def map_of_dict_set fun_eq_iff map_add_def split: option.splits)

lemma map_of_add_cases:
  "map_of (add wire_adj a b) k = Some bs \<Longrightarrow>
     (k \<noteq> a \<and> k \<noteq> b \<and> map_of wire_adj k = Some bs)
     \<or> ((k = a \<or> k = b) \<and> set bs \<subseteq> {a, b} \<union> (case map_of wire_adj k of None \<Rightarrow> {} | Some cs \<Rightarrow> set cs))"
  by (auto simp: add_def map_of_setdefault_add split: option.splits if_splits)

lemma map_of_add_keys:
  "map_of (add wire_adj a b) k \<noteq> None \<longleftrightarrow> k = a \<or> k = b \<or> map_of wire_adj k \<noteq> None"
  by (auto simp: add_def map_of_setdefault_add)

lemma add_closed: "adj_closed wire_adj \<Longrightarrow> adj_closed (add wire_adj a b)"
  unfolding adj_closed_def
proof (intro allI impI)
  fix k bs n
  assume cl: "\<forall>k bs n. map_of wire_adj k = Some bs \<longrightarrow> n \<in> set bs \<longrightarrow> map_of wire_adj n \<noteq> None"
    and k: "map_of (add wire_adj a b) k = Some bs" and n: "n \<in> set bs"
  from map_of_add_cases [OF k] n cl have "n = a \<or> n = b \<or> map_of wire_adj n \<noteq> None"
    by (auto split: option.splits)
  then show "map_of (add wire_adj a b) n \<noteq> None" by (simp only: map_of_add_keys)
qed

lemma build_wire_adj_closed:
  "adj_closed wire_adj \<Longrightarrow> adj_closed (snd (build_wire_adj c ls (s, wire_adj)))"
proof (induction ls arbitrary: wire_adj)
  case Nil
  then show ?case by simp
next
  case (Cons l ls)
  obtain a b where l: "l = (a, b)" by (cases l)
  have 1: "get_node c s a False = (fst (get_node c s a False), s)"
    by (metis get_node_lookup_state prod.collapse)
  have 2: "get_node c s b False = (fst (get_node c s b False), s)"
    by (metis get_node_lookup_state prod.collapse)
  show ?case unfolding l build_wire_adj.simps
    by (subst 1, simp only: prod.case, subst 2, simp only: prod.case)
       (auto intro!: Cons.IH add_closed Cons.prems split: option.splits)
qed

lemma traverse_total:
  "adj_closed wire_adj \<Longrightarrow> \<forall>n\<in>set stack. map_of wire_adj n \<noteq> None \<Longrightarrow>
     \<exists>r. traverse wire_adj stack visited g = Inr r"
proof (induction wire_adj stack visited g rule: traverse.induct)
  case (1 wire_adj visited g)
  show ?case by simp
next
  case (2 wire_adj cur stack visited g)
  show ?case
  proof (cases "cur \<in> visited")
    case True
    with 2 show ?thesis by simp
  next
    case False
    from "2.prems"(2) obtain nbrs where nb: "map_of wire_adj cur = Some nbrs" by auto
    from "2.prems"(1) nb have "\<forall>n\<in>set nbrs. map_of wire_adj n \<noteq> None"
      by (auto simp: adj_closed_def)
    with "2.prems" have "\<forall>n\<in>set (rev (filter (\<lambda>nx. nx \<notin> insert cur visited) nbrs) @ stack).
        map_of wire_adj n \<noteq> None" by auto
    from "2.IH"(2) [OF False nb "2.prems"(1) this] False nb show ?thesis by simp
  qed
qed

lemma traverse_new:
  "traverse wire_adj stack visited g = Inr (visited', g') \<Longrightarrow>
     \<exists>new. g' = g @ new \<and> distinct new \<and> set new \<inter> visited = {} \<and> visited' = visited \<union> set new
       \<and> set new \<subseteq> set stack \<union> (\<Union>bs\<in>ran (map_of wire_adj). set bs)"
proof (induction wire_adj stack visited g arbitrary: visited' g' rule: traverse.induct)
  case (1 wire_adj visited g)
  then show ?case by simp
next
  case (2 wire_adj cur stack visited g)
  show ?case
  proof (cases "cur \<in> visited")
    case True
    with "2.prems" have "traverse wire_adj stack visited g = Inr (visited', g')" by simp
    from "2.IH"(1) [OF True this] show ?thesis by auto
  next
    case False
    with "2.prems" obtain nbrs where nb: "map_of wire_adj cur = Some nbrs"
      by (auto split: option.splits)
    with False "2.prems" have "traverse wire_adj
            (rev (filter (\<lambda>nx. nx \<notin> insert cur visited) nbrs) @ stack)
            (insert cur visited) (g @ [cur]) = Inr (visited', g')" by simp
    from "2.IH"(2) [OF False nb this] obtain new where
      new: "g' = (g @ [cur]) @ new" "distinct new" "set new \<inter> insert cur visited = {}"
        "visited' = insert cur visited \<union> set new"
        "set new \<subseteq> set (rev (filter (\<lambda>nx. nx \<notin> insert cur visited) nbrs) @ stack)
            \<union> (\<Union>bs\<in>ran (map_of wire_adj). set bs)"
      by blast
    from nb have "set nbrs \<subseteq> (\<Union>bs\<in>ran (map_of wire_adj). set bs)"
      by (auto simp: ran_def)
    with new(5) have "set (cur # new) \<subseteq> set (cur # stack) \<union> (\<Union>bs\<in>ran (map_of wire_adj). set bs)"
      by auto
    moreover from new False have "g' = g @ (cur # new)" "distinct (cur # new)"
      "set (cur # new) \<inter> visited = {}" "visited' = visited \<union> set (cur # new)" by auto
    ultimately show ?thesis by blast
  qed
qed

lemma find_groups_total:
  "adj_closed wire_adj \<Longrightarrow> \<forall>n\<in>set ns. map_of wire_adj n \<noteq> None \<Longrightarrow>
     \<exists>gs. find_groups wire_adj ns visited groups = Inr gs"
proof (induction wire_adj ns visited groups rule: find_groups.induct)
  case (1 wire_adj visited groups)
  show ?case by simp
next
  case (2 wire_adj n ns visited groups)
  show ?case
  proof (cases "n \<in> visited")
    case True
    with 2 show ?thesis by simp
  next
    case False
    from traverse_total [OF "2.prems"(1), of "[n]" visited "[]"] "2.prems"(2)
    obtain v' g where t: "traverse wire_adj [n] visited [] = Inr (v', g)" by fastforce
    from "2.IH"(2) [OF False t refl "2.prems"(1)] "2.prems"(2) False t show ?thesis by simp
  qed
qed

lemma find_groups_new:
  "find_groups wire_adj ns visited groups = Inr gs \<Longrightarrow>
     \<exists>new. gs = groups @ new \<and> disjoint_groups new \<and> (\<forall>g\<in>set new. set g \<inter> visited = {} \<and> distinct g)"
proof (induction wire_adj ns visited groups arbitrary: gs rule: find_groups.induct)
  case (1 wire_adj visited groups)
  then show ?case by simp
next
  case (2 wire_adj n ns visited groups)
  show ?case
  proof (cases "n \<in> visited")
    case True
    with "2.prems" have "find_groups wire_adj ns visited groups = Inr gs" by simp
    from "2.IH"(1) [OF True this] show ?thesis .
  next
    case False
    with "2.prems" obtain v' g where t: "traverse wire_adj [n] visited [] = Inr (v', g)"
      by (auto split: sum.splits)
    with False "2.prems" have f: "find_groups wire_adj ns v' (groups @ [g]) = Inr gs" by simp
    from traverse_new [OF t] have g: "distinct g" "set g \<inter> visited = {}" "v' = visited \<union> set g"
      by auto
    from "2.IH"(2) [OF False t refl f] obtain new where
      new: "gs = (groups @ [g]) @ new" "disjoint_groups new"
        "\<forall>h\<in>set new. set h \<inter> v' = {} \<and> distinct h" by blast
    from new g have "gs = groups @ (g # new)" "disjoint_groups (g # new)"
      "\<forall>h\<in>set (g # new). set h \<inter> visited = {} \<and> distinct h" by auto
    then show ?thesis by blast
  qed
qed

section \<open>Properties of the serializer and of the run\<close>

lemma get_node_lookup: "get_node c s pin False = (lookup_node c s pin, s)"
  unfolding lookup_node_def by (metis get_node_lookup_state prod.collapse)

lemma prefix_val_electrical:
  "electrical cmp \<Longrightarrow> prefix_val vals cmp = Some (spec_prefix cmp, spec_value vals cmp)"
  by (auto simp: electrical_def prefix_val_def spec_prefix_def spec_value_def
        spec_default_def dict_get_def split: option.splits)

lemma pins_electrical:
  "electrical cmp \<Longrightarrow> get_component_pins cmp pos = [(fst pos - 30, snd pos), (fst pos + 30, snd pos)]"
  by (cases pos) (simp add: electrical_def)

lemma electrical_not_skipped: "electrical cmp \<Longrightarrow> \<not> skipped cmp"
  by (auto simp: electrical_def skipped_def)

lemma serialize_skip:
  "skipped cmp \<Longrightarrow>
     serialize c merge vals ((cmp, pos) # cs) (s, counts, netlist)
       = serialize c merge vals cs (s, counts, netlist)"
  by (auto simp: skipped_def)

lemma serialize_unknown:
  "\<not> electrical cmp \<Longrightarrow> \<not> skipped cmp \<Longrightarrow>
     serialize c merge vals ((cmp, pos) # cs) (s, counts, netlist) = (Inl IndexError, s)"
  by (cases pos) (auto simp: electrical_def skipped_def)

lemma serialize_electrical:
  "electrical cmp \<Longrightarrow>
     serialize c merge vals ((cmp, pos) # cs) (s, counts, netlist) =
       (case merge_lookup merge (lookup_node c s (fst pos - 30, snd pos)) of
          Inl e \<Rightarrow> (Inl e, s)
        | Inr n1 \<Rightarrow>
            (case merge_lookup merge (lookup_node c s (fst pos + 30, snd pos)) of
               Inl e \<Rightarrow> (Inl e, s)
             | Inr n2 \<Rightarrow>
                 if n1 = n2 then (Inl (ValueError_shorted cmp n1), s)
                 else serialize c merge vals cs
                        (s, counts(cmp := counts cmp + 1),
                         netlist @ [format_line (spec_prefix cmp) (counts cmp + 1) n1 n2 (spec_value vals cmp)])))"
proof -
  assume el: "electrical cmp"
  then have "cmp \<notin> {''voltmeter'', ''ammeter''}" "cmp \<noteq> ''ground''"
    by (auto simp: electrical_def)
  then show ?thesis
    by (simp add: pins_electrical [OF el] get_node_lookup prefix_val_electrical [OF el] Let_def
          split: sum.splits)
qed

declare serialize.simps(2) [simp del]

lemma serialize_state [simp]: "snd (serialize c merge vals cs (s, counts, netlist)) = s"
proof (induction cs arbitrary: counts netlist)
  case Nil
  show ?case by simp
next
  case (Cons cp cs)
  obtain cmp pos where cp: "cp = (cmp, pos)" by (cases cp)
  show ?case
  proof (cases "electrical cmp")
    case True
    show ?thesis unfolding cp serialize_electrical [OF True]
      by (simp add: Cons.IH split: sum.splits)
  next
    case False
    show ?thesis
    proof (cases "skipped cmp")
      case True
      show ?thesis unfolding cp serialize_skip [OF True] by (rule Cons.IH)
    next
      case ns: False
      show ?thesis unfolding cp serialize_unknown [OF False ns] by simp
    qed
  qed
qed

lemma wire_graph_closed: "adj_closed (wire_graph c s)"
  unfolding wire_graph_def by (rule build_wire_adj_closed) (simp add: adj_closed_def)

lemma build_merge_groups:
  obtains groups where
    "find_groups (wire_graph c s) (map fst (wire_graph c s)) {} [] = Inr groups"
    "disjoint_groups groups" "\<forall>g\<in>set groups. distinct g"
    "build_merge c s = (Inr (merge_nodes groups (nodes s) (ground_keys s)), s)"
proof -
  have keys: "\<forall>n\<in>set (map fst (wire_graph c s)). map_of (wire_graph c s) n \<noteq> None"
    by (simp add: map_of_eq_None_iff)
  from find_groups_total [OF wire_graph_closed keys]
  obtain groups where g: "find_groups (wire_graph c s) (map fst (wire_graph c s)) {} [] = Inr groups"
    by blast
  from find_groups_new [OF g] have d: "disjoint_groups groups" "\<forall>g\<in>set groups. distinct g" by auto
  have bw: "build_wire_adj c (lines c) (s, []) = (s, wire_graph c s)"
    unfolding wire_graph_def by (metis build_wire_adj_state prod.collapse)
  have "build_merge c s = (Inr (merge_nodes groups (nodes s) (ground_keys s)), s)"
    by (simp add: build_merge_def bw g)
  with g d show ?thesis using that by blast
qed

lemma generate_netlist_state: "snd (generate_netlist s0 c vals) = assign_nodes c s0"
proof -
  obtain groups where
    bm: "build_merge c (assign_nodes c s0)
          = (Inr (merge_nodes groups (nodes (assign_nodes c s0)) (ground_keys (assign_nodes c s0))),
             assign_nodes c s0)"
    by (rule build_merge_groups)
  have "s' = assign_nodes c s0"
    if "serialize c m vals (components c) (assign_nodes c s0, (\<lambda>_. 0), []) = (r, s')" for m r s'
    using that by (metis serialize_state snd_conv)
  then show ?thesis
    by (auto simp: generate_netlist_def bm split: prod.splits sum.splits)
qed

lemma generate_netlist_init: "generate_netlist s0 c vals = generate_netlist s0' c vals"
  by (simp add: generate_netlist_def assign_nodes_reset [of c s0 s0'])

text \<open>
  C8. Calling \<open>generate_netlist\<close> a second time on the same canvas, from the generator
  as the first call left it, gives the same string or the same error: the node table and
  its counter are reset at the start, so the tables of a run are those of a run from a
  fresh generator.
\<close>

theorem generate_netlist_idempotent:
  "fst (generate_netlist (snd (generate_netlist s0 c vals)) c vals) = fst (generate_netlist s0 c vals)
   \<and> nodes (assign_nodes c s0) = nodes (assign_nodes c init_generator)
   \<and> next_node_num (assign_nodes c s0) = next_node_num (assign_nodes c init_generator)"
  using generate_netlist_init [of "snd (generate_netlist s0 c vals)" c vals s0]
    assign_nodes_reset [of c s0 init_generator] by simp

lemma serialize_none:
  "\<forall>cp\<in>set cs. skipped (fst cp) \<Longrightarrow>
     serialize c merge vals cs (s, counts, netlist) = (Inr netlist, s)"
  by (induction cs) (auto simp: serialize_skip)

lemma generate_netlist_skipped:
  assumes "\<forall>cp\<in>set (components c). fst cp \<in> {''voltmeter'', ''ammeter'', ''ground''}"
  shows "fst (generate_netlist s0 c vals) = Inr []"
proof -
  obtain groups where
    bm: "build_merge c (assign_nodes c s0)
          = (Inr (merge_nodes groups (nodes (assign_nodes c s0)) (ground_keys (assign_nodes c s0))),
             assign_nodes c s0)"
    by (rule build_merge_groups)
  from assms have "\<forall>cp\<in>set (components c). skipped (fst cp)" by (simp add: skipped_def)
  from serialize_none [OF this] show ?thesis by (simp add: generate_netlist_def bm)
qed

text \<open>
  C9, at a canvas that holds one component with the tag \<open>delete\<close> and no wire. The canvas
  has no resistor, battery, capacitor or inductor; \<open>get_component_pins\<close> gives the tag no
  pins, the serializer does not skip it, and \<open>pins[0]\<close> raises \<open>IndexError\<close>: the run does
  not return the empty string.
\<close>

theorem unknown_tag_raises_IndexError:
  "filter (\<lambda>cp. fst cp \<in> {''resistor'', ''battery'', ''capacitor'', ''inductor''})
       (components delete_canvas) = []
   \<and> get_component_pins ''delete'' (100, 100) = []
   \<and> fst (generate_netlist init_generator delete_canvas Map.empty) = Inl IndexError"
  by code_simp

section \<open>The node table holds no ground anchor\<close>

lemma merge_step3_no_ground:
  "\<forall>k n. (k, n) \<in> set nds \<longrightarrow> k \<notin> gk \<Longrightarrow> merge_step3 nds gk st = merge_step3 nds {} st"
proof (induction nds arbitrary: st)
  case Nil
  show ?case by (cases st) simp
next
  case (Cons kn nds)
  obtain k n where kn: "kn = (k, n)" by (cases kn)
  obtain m i where st: "st = (m, i)" by (cases st)
  from Cons.prems kn have "k \<notin> gk" by (metis list.set_intros(1))
  moreover from Cons.prems have "\<forall>k n. (k, n) \<in> set nds \<longrightarrow> k \<notin> gk"
    by (metis list.set_intros(2))
  ultimately show ?case unfolding kn st by (simp add: Cons.IH)
qed

lemma get_node_zero:
  assumes "nodes_inv s" and "fst (get_node c s p b) = Some 0"
  shows "node_key c p \<in> ground_keys s"
proof (cases rule: get_node_cases [of c p s b])
  case (found k nid)
  from found(2) have "(k, nid) \<in> set (nodes s)" by (auto simp: find_Some_iff)
  with assms(1) have "1 \<le> nid" unfolding nodes_inv_def by blast
  with found(3) assms(2) show ?thesis by simp
next
  case created
  with assms show ?thesis by (simp add: nodes_inv_def)
next
  case missing
  with assms show ?thesis by simp
qed

lemma create_pass_all_pins [simp]: "all_pins (create_pass c s ps) = all_pins s"
  unfolding create_pass_def by (induction ps arbitrary: s) auto

lemma generate_netlist_upto:
  "snd (generate_netlist s0 c vals)
     = creation_upto c s0 (length (all_pins (snd (generate_netlist s0 c vals))))"
  by (simp add: generate_netlist_state assign_nodes_def creation_upto_def Let_def)

text \<open>
  C10. At every point of the creation pass, and so in the table that the merge steps and
  the serializer read, no key of \<open>nodes\<close> is a ground anchor and every stored id is
  positive; a call of \<open>_get_node\<close> returns 0 only through the ground-key return; and
  step 3 of the merge behaves as it would with no ground anchors at all, that is, its
  ground branch is never taken.
\<close>

theorem nodes_table_never_ground:
  "(\<forall>k n. (k, n) \<in> set (nodes (creation_upto c s0 i))
       \<longrightarrow> k \<notin> ground_keys (creation_upto c s0 i) \<and> 0 < n)
   \<and> (\<forall>p b. fst (get_node c (creation_upto c s0 i) p b) = Some 0
       \<longrightarrow> node_key c p \<in> ground_keys (creation_upto c s0 i))
   \<and> merge_step3 (nodes (creation_upto c s0 i)) (ground_keys (creation_upto c s0 i)) st
       = merge_step3 (nodes (creation_upto c s0 i)) {} st
   \<and> snd (generate_netlist s0 c vals)
       = creation_upto c s0 (length (all_pins (snd (generate_netlist s0 c vals))))"
proof -
  have inv: "nodes_inv (creation_upto c s0 i)" by (rule creation_upto_inv)
  then have 1: "\<forall>k n. (k, n) \<in> set (nodes (creation_upto c s0 i))
       \<longrightarrow> k \<notin> ground_keys (creation_upto c s0 i) \<and> 0 < n"
    by (fastforce simp: nodes_inv_def)
  from inv have 2: "\<forall>p b. fst (get_node c (creation_upto c s0 i) p b) = Some 0
       \<longrightarrow> node_key c p \<in> ground_keys (creation_upto c s0 i)"
    by (blast intro: get_node_zero)
  from 1 have 3: "merge_step3 (nodes (creation_upto c s0 i)) (ground_keys (creation_upto c s0 i)) st
       = merge_step3 (nodes (creation_upto c s0 i)) {} st"
    by (intro merge_step3_no_ground) blast
  from 1 2 3 generate_netlist_upto show ?thesis by blast
qed

lemma ground_wire_nodes: "nodes (creation_upto ground_wire_canvas init_generator 2) = [((170, 100), 1)]"
  by code_simp
lemma ground_wire_ground_keys: "(100, 100) \<in> ground_keys (creation_upto ground_wire_canvas init_generator 2)"
  by code_simp
lemma ground_wire_get_node: "fst (get_node ground_wire_canvas (creation_upto ground_wire_canvas init_generator 2) (100, 100) False) = Some 0"
  by code_simp
lemma ground_wire_node_key: "node_key ground_wire_canvas (100, 100) = (100, 100)"
  by code_simp

theorem nodes_table_never_ground_witness:
  "nodes (creation_upto ground_wire_canvas init_generator 2) = [((170, 100), 1)]
   \<and> (100, 100) \<in> ground_keys (creation_upto ground_wire_canvas init_generator 2)
   \<and> fst (get_node ground_wire_canvas (creation_upto ground_wire_canvas init_generator 2) (100, 100) False) = Some 0
   \<and> node_key ground_wire_canvas (100, 100) = (100, 100)"
  using nodes_table_never_ground [of ground_wire_canvas init_generator 2 "(Map.empty, 1)" Map.empty]
    ground_wire_nodes ground_wire_ground_keys ground_wire_get_node ground_wire_node_key
  by simp

section \<open>The cases of the node assigner\<close>

lemma node_key_cases:
  "node_key c point =
     (case find_nearest_pin c point of
        None \<Rightarrow> point
      | Some snap \<Rightarrow> if snap = (0, 0) then point else snap)"
  by (simp add: node_key_def qpoint_bool_def split: option.splits)

lemma find_node_close:
  "find (node_close key) nds = Some (k, nid) \<Longrightarrow>
     (k, nid) \<in> set nds \<and> \<bar>fst k - fst key\<bar> < 20 \<and> \<bar>snd k - snd key\<bar> < 20"
proof -
  assume "find (node_close key) nds = Some (k, nid)"
  then have "(k, nid) \<in> set nds" and "node_close key (k, nid)"
    by (auto simp: find_Some_iff)
  then show ?thesis by (cases k) (simp add: grid_size_def)
qed

lemma find_node_close_None:
  "find (node_close key) nds = None \<Longrightarrow> (k, nid) \<in> set nds \<Longrightarrow>
     \<not> (\<bar>fst k - fst key\<bar> < 20 \<and> \<bar>snd k - snd key\<bar> < 20)"
proof -
  assume "find (node_close key) nds = None" and "(k, nid) \<in> set nds"
  then have "\<not> node_close key (k, nid)" by (metis find_None_iff)
  then show ?thesis by (cases k) (simp add: grid_size_def)
qed


section \<open>The lines of the netlist and the short circuit\<close>

lemma serialize_lines:
  "serialize c merge vals rest (s, counts, netlist) = (Inr out, s') \<Longrightarrow>
   (\<And>cmp. electrical cmp \<Longrightarrow> counts cmp = kind_count cmp before) \<Longrightarrow>
     out = netlist @ spec_lines (\<lambda>pin. projr (merge_lookup merge (lookup_node c s pin))) vals before rest
     \<and> (\<forall>cp\<in>set rest. passes (\<lambda>pin. merge_lookup merge (lookup_node c s pin)) cp)"
proof (induction rest arbitrary: counts netlist before)
  case Nil
  then show ?case by simp
next
  case (Cons cp rest)
  obtain cmp pos where cp: "cp = (cmp, pos)" by (cases cp)
  show ?case
  proof (cases "electrical cmp")
    case False
    have sk: "skipped cmp"
    proof (rule ccontr)
      assume "\<not> skipped cmp"
      from serialize_unknown [OF False this] Cons.prems(1) show False by (simp add: cp)
    qed
    with Cons.prems(1) have s: "serialize c merge vals rest (s, counts, netlist) = (Inr out, s')"
      by (simp add: cp serialize_skip)
    have "\<And>k. electrical k \<Longrightarrow> counts k = kind_count k (before @ [(cmp, pos)])"
      using Cons.prems(2) False by (auto simp: kind_count_def)
    from Cons.IH [OF s this] False sk show ?thesis by (simp add: cp passes_def)
  next
    case True
    let ?p0 = "(fst pos - 30, snd pos)" and ?p1 = "(fst pos + 30, snd pos)"
    from Cons.prems(1) True obtain n1 n2 where
      n1: "merge_lookup merge (lookup_node c s ?p0) = Inr n1" and
      n2: "merge_lookup merge (lookup_node c s ?p1) = Inr n2" and ne: "n1 \<noteq> n2" and
      s: "serialize c merge vals rest
            (s, counts(cmp := counts cmp + 1),
             netlist @ [format_line (spec_prefix cmp) (counts cmp + 1) n1 n2 (spec_value vals cmp)])
          = (Inr out, s')"
      by (auto simp: cp serialize_electrical split: sum.splits if_splits)
    have cnt: "\<And>k. electrical k \<Longrightarrow> (counts(cmp := counts cmp + 1)) k = kind_count k (before @ [(cmp, pos)])"
      using Cons.prems(2) True by (auto simp: kind_count_def)
    have pins: "get_component_pins cmp pos ! 0 = ?p0" "get_component_pins cmp pos ! 1 = ?p1"
      using pins_electrical [OF True, of pos] by simp_all
    from Cons.IH [OF s cnt] True n1 n2 ne pins cnt [OF True] Cons.prems(2) [OF True]
    show ?thesis by (simp add: cp format_line_def pins_resolve_def passes_def)
  qed
qed

lemma serialize_prefix_ok:
  "\<forall>cp\<in>set before. passes (\<lambda>pin. merge_lookup merge (lookup_node c s pin)) cp \<Longrightarrow>
     \<exists>counts' netlist'. serialize c merge vals (before @ rest) (s, counts, netlist)
        = serialize c merge vals rest (s, counts', netlist')"
proof (induction before arbitrary: counts netlist)
  case Nil
  show ?case by auto
next
  case (Cons cp before)
  obtain cmp pos where cp: "cp = (cmp, pos)" by (cases cp)
  from Cons.prems have rest: "\<forall>cp\<in>set before.
      passes (\<lambda>pin. merge_lookup merge (lookup_node c s pin)) cp" by simp
  from Cons.prems cp have p: "passes (\<lambda>pin. merge_lookup merge (lookup_node c s pin)) (cmp, pos)"
    by simp
  show ?case
  proof (cases "skipped cmp")
    case True
    then show ?thesis using Cons.IH [OF rest] by (simp add: cp serialize_skip)
  next
    case False
    with p have el: "electrical cmp"
      and "pins_resolve (\<lambda>pin. merge_lookup merge (lookup_node c s pin)) (cmp, pos)"
      by (simp_all add: passes_def)
    then obtain n1 n2 where "merge_lookup merge (lookup_node c s (fst pos - 30, snd pos)) = Inr n1"
      "merge_lookup merge (lookup_node c s (fst pos + 30, snd pos)) = Inr n2" "n1 \<noteq> n2"
      using pins_electrical [OF el, of pos] by (auto simp: pins_resolve_def)
    then show ?thesis using Cons.IH [OF rest] el by (simp add: cp serialize_electrical)
  qed
qed

lemma final_node_merge:
  "\<exists>merge. build_merge c (assign_nodes c s0) = (Inr merge, assign_nodes c s0)
     \<and> (\<forall>pin. final_node c s0 pin = merge_lookup merge (lookup_node c (assign_nodes c s0) pin))"
proof -
  obtain groups where
    bm: "build_merge c (assign_nodes c s0)
          = (Inr (merge_nodes groups (nodes (assign_nodes c s0)) (ground_keys (assign_nodes c s0))),
             assign_nodes c s0)"
    by (rule build_merge_groups)
  then have "\<forall>pin. final_node c s0 pin
      = merge_lookup (merge_nodes groups (nodes (assign_nodes c s0)) (ground_keys (assign_nodes c s0)))
          (lookup_node c (assign_nodes c s0) pin)"
    by (simp add: final_node_def lookup_node_def)
  with bm show ?thesis by blast
qed

lemma short_circuit_first:
  assumes "components c = before @ (cmp, pos) # rest"
    and "cmp \<in> {''resistor'', ''battery'', ''capacitor'', ''inductor''}"
    and "final_node c s0 (get_component_pins cmp pos ! 0) = Inr n"
    and "final_node c s0 (get_component_pins cmp pos ! 1) = Inr n"
    and "\<forall>cp\<in>set before. passes (final_node c s0) cp"
  shows "fst (generate_netlist s0 c vals) = Inl (ValueError_shorted cmp n)"
proof -
  obtain merge where bm: "build_merge c (assign_nodes c s0) = (Inr merge, assign_nodes c s0)"
    and fn: "\<And>pin. final_node c s0 pin = merge_lookup merge (lookup_node c (assign_nodes c s0) pin)"
    using final_node_merge [of c s0] by blast
  from assms(2) have el: "electrical cmp" by (simp add: electrical_def)
  from assms(5) have "\<forall>cp\<in>set before.
      passes (\<lambda>pin. merge_lookup merge (lookup_node c (assign_nodes c s0) pin)) cp"
    by (simp add: fn [abs_def])
  from serialize_prefix_ok [OF this, of vals "(cmp, pos) # rest" "\<lambda>_. 0" "[]"]
  obtain counts' netlist' where
    "serialize c merge vals (components c) (assign_nodes c s0, (\<lambda>_. 0), [])
       = serialize c merge vals ((cmp, pos) # rest) (assign_nodes c s0, counts', netlist')"
    by (auto simp: assms(1))
  moreover from assms(3,4) pins_electrical [OF el, of pos]
  have "merge_lookup merge (lookup_node c (assign_nodes c s0) (fst pos - 30, snd pos)) = Inr n"
    "merge_lookup merge (lookup_node c (assign_nodes c s0) (fst pos + 30, snd pos)) = Inr n"
    by (simp_all add: fn)
  ultimately have "serialize c merge vals (components c) (assign_nodes c s0, (\<lambda>_. 0), [])
       = (Inl (ValueError_shorted cmp n), assign_nodes c s0)"
    by (simp add: serialize_electrical [OF el])
  then show ?thesis by (simp add: generate_netlist_def bm)
qed

lemma spec_lines_length:
  "length (spec_lines node vals before cs) = length (filter (\<lambda>cp. electrical (fst cp)) cs)"
  by (induction cs arbitrary: before) auto

lemma generate_netlist_lines:
  assumes "fst (generate_netlist s0 c vals) = Inr out"
  shows "out = join_lines (spec_lines (\<lambda>pin. projr (final_node c s0 pin)) vals [] (components c))
    \<and> length (spec_lines (\<lambda>pin. projr (final_node c s0 pin)) vals [] (components c))
        = length (filter (\<lambda>cp. fst cp \<in> {''resistor'', ''battery'', ''capacitor'', ''inductor''}) (components c))
    \<and> (\<forall>cp\<in>set (components c). fst cp \<in> {''resistor'', ''battery'', ''capacitor'', ''inductor''}
          \<longrightarrow> pins_resolve (final_node c s0) cp)"
proof -
  obtain merge where bm: "build_merge c (assign_nodes c s0) = (Inr merge, assign_nodes c s0)"
    and fn: "\<And>pin. final_node c s0 pin = merge_lookup merge (lookup_node c (assign_nodes c s0) pin)"
    using final_node_merge [of c s0] by blast
  from assms obtain netlist s' where
    ser: "serialize c merge vals (components c) (assign_nodes c s0, (\<lambda>_. 0), []) = (Inr netlist, s')"
    and out: "out = join_lines netlist"
    by (auto simp: generate_netlist_def bm split: prod.splits sum.splits)
  have "\<And>cmp. electrical cmp \<Longrightarrow> (\<lambda>_. 0) cmp = kind_count cmp []" by (simp add: kind_count_def)
  from serialize_lines [OF ser this]
  have "netlist = spec_lines (\<lambda>pin. projr (final_node c s0 pin)) vals [] (components c)"
    and "\<forall>cp\<in>set (components c). passes (final_node c s0) cp"
    by (simp_all add: fn [abs_def])
  then have "netlist = spec_lines (\<lambda>pin. projr (final_node c s0 pin)) vals [] (components c)"
    and "\<forall>cp\<in>set (components c). electrical (fst cp) \<longrightarrow> pins_resolve (final_node c s0) cp"
    by (auto simp: passes_def dest: electrical_not_skipped)
  with out show ?thesis
    by (simp add: spec_lines_length electrical_def)
qed

text \<open>
  C7. A netlist that \<open>generate_netlist\<close> returns is the newline-joined list of the lines of
  the specification: one line per resistor, battery, capacitor or inductor, in list order,
  \<open><prefix><index> <node1> <node2> <value>\<close> with prefix R, V, C or L, the index counting
  the components of that kind from 1, the two final nodes of its pins, and the value from
  the caller's map under the prefix or else the default 100, 5, 1e-6 or 1e-3. Voltmeters,
  ammeters and grounds give no line, and the two pins of every line resolve to different
  final nodes.
\<close>

theorem netlist_lines:
  assumes "fst (generate_netlist s0 c vals) = Inr out"
  shows "out = join_lines (spec_lines (\<lambda>pin. projr (final_node c s0 pin)) vals [] (components c))
    \<and> length (spec_lines (\<lambda>pin. projr (final_node c s0 pin)) vals [] (components c))
        = length (filter (\<lambda>cp. fst cp \<in> {''resistor'', ''battery'', ''capacitor'', ''inductor''}) (components c))
    \<and> (\<forall>cp\<in>set (components c). fst cp \<in> {''resistor'', ''battery'', ''capacitor'', ''inductor''}
          \<longrightarrow> pins_resolve (final_node c s0) cp)"
  using assms by (rule generate_netlist_lines)

text \<open>
  C3, as amended. When a resistor, battery, capacitor or inductor of the component list
  has both pins resolving through \<open>merge\<close> to the same final node \<open>n\<close>, \<open>generate_netlist\<close>
  returns an error and no netlist string. When the loop arrives at that component, every
  component before it in the list being skipped or resolving its two pins to two
  different final nodes, the error is the short-circuit \<open>ValueError\<close> formatted from that
  component's tag and \<open>n\<close>.
\<close>

theorem short_circuit_raises:
  assumes "(cmp, pos) \<in> set (components c)"
    and "cmp \<in> {''resistor'', ''battery'', ''capacitor'', ''inductor''}"
    and "final_node c s0 (get_component_pins cmp pos ! 0) = Inr n"
    and "final_node c s0 (get_component_pins cmp pos ! 1) = Inr n"
  shows "(\<exists>e. fst (generate_netlist s0 c vals) = Inl e)
    \<and> (\<forall>before rest. components c = before @ (cmp, pos) # rest
          \<and> (\<forall>cp\<in>set before. passes (final_node c s0) cp)
        \<longrightarrow> fst (generate_netlist s0 c vals) = Inl (ValueError_shorted cmp n))"
proof (intro conjI allI impI)
  show "\<exists>e. fst (generate_netlist s0 c vals) = Inl e"
  proof (cases "fst (generate_netlist s0 c vals)")
    case (Inr out)
    from generate_netlist_lines [OF Inr] assms(1,2)
    have "pins_resolve (final_node c s0) (cmp, pos)" by auto
    with assms(3,4) show ?thesis by (simp add: pins_resolve_def)
  qed simp
next
  fix before rest
  assume "components c = before @ (cmp, pos) # rest
          \<and> (\<forall>cp\<in>set before. passes (final_node c s0) cp)"
  then show "fst (generate_netlist s0 c vals) = Inl (ValueError_shorted cmp n)"
    using short_circuit_first [OF _ assms(2,3,4)] by blast
qed

section \<open>Runs on the example canvases\<close>

lemma py_tags:
  "py_strip (py_lower ''ground'') = ''ground''"
  "py_strip (py_lower ''resistor'') = ''resistor''"
  "py_strip (py_lower ''battery'') = ''battery''"
  "py_strip (py_lower ''capacitor'') = ''capacitor''"
  "py_strip (py_lower ''inductor'') = ''inductor''"
  "py_strip (py_lower ''voltmeter'') = ''voltmeter''"
  "py_strip (py_lower ''ammeter'') = ''ammeter''"
  "py_strip (py_lower ''delete'') = ''delete''"
  by code_simp+

lemma get_node_candidate:
  "pin \<in> set (candidates c) \<Longrightarrow>
     get_node c s pin b =
       (if pin \<in> ground_keys s then (Some 0, s)
        else case find (node_close pin) (nodes s) of
          Some (_, nid) \<Rightarrow> (Some nid, s)
        | None \<Rightarrow>
            if b
            then (Some (next_node_num s),
                  s\<lparr>nodes := nodes s @ [(pin, next_node_num s)],
                    next_node_num := next_node_num s + 1\<rparr>)
            else (None, s))"
  by (auto simp: get_node_def node_key_candidate dict_set_fresh dest: find_close_None_fresh
           split: option.splits)

lemma final_node_lookup:
  "build_merge c (assign_nodes c s0) = (Inr merge, s4) \<Longrightarrow>
     final_node c s0 pin = merge_lookup merge (lookup_node c s4 pin)"
  by (simp add: final_node_def lookup_node_def)

lemma loop_canvas_fields:
  "components loop_canvas = [(''battery'', (0, 0)), (''ground'', (-100, 100)), (''resistor'', (200, 0)), (''ground'', (300, 100))]"
  "lines loop_canvas = [((-30, 0), (-100, 100)), ((30, 0), (100, 0)), ((100, 0), (170, 0)), ((230, 0), (300, 100))]"
  by (simp_all add: loop_canvas_def)

lemma loop_canvas_candidates: "set (candidates loop_canvas) = {(- 30, 0), (30, 0), (- 100, 100), (170, 0), (230, 0), (300, 100), (100, 0)}"
  by (auto simp add: candidates_def loop_canvas_fields)

lemma loop_canvas_collect: "collect_all_pins loop_canvas \<lparr>nodes = [], next_node_num = 1, all_pins = [], ground_keys = {}\<rparr> =
   \<lparr>nodes = [],
     next_node_num = 1,
     all_pins =
       [(- 30, 0), (30, 0), (- 100, 100), (170, 0), (230, 0), (300, 100),
        (- 30, 0), (- 100, 100), (30, 0), (100, 0), (100, 0), (170, 0),
        (230, 0), (300, 100)],
     ground_keys = {(300, 100), (- 100, 100)}\<rparr>"
  by (simp add: collect_all_pins_def loop_canvas_fields py_tags)

lemma loop_canvas_assign: "assign_nodes loop_canvas init_generator =
   \<lparr>nodes = [((- 30, 0), 1), ((30, 0), 2), ((170, 0), 3), ((230, 0), 4), ((100, 0), 5)],
     next_node_num = 6,
     all_pins =
       [(- 30, 0), (30, 0), (- 100, 100), (170, 0), (230, 0), (300, 100),
        (- 30, 0), (- 100, 100), (30, 0), (100, 0), (100, 0), (170, 0),
        (230, 0), (300, 100)],
     ground_keys = {(300, 100), (- 100, 100)}\<rparr>"
  by (simp add: assign_nodes_def init_generator_def loop_canvas_collect create_pass_def
       get_node_candidate loop_canvas_candidates grid_size_def)

lemma loop_canvas_wire: "build_wire_adj loop_canvas (lines loop_canvas) (assign_nodes loop_canvas init_generator, [])
   = (assign_nodes loop_canvas init_generator, [(1, [0]), (0, [1, 4]), (2, [5]), (5, [2, 3]), (3, [5]), (4, [0])])"
  by (simp add: loop_canvas_assign loop_canvas_fields get_node_candidate loop_canvas_candidates grid_size_def add_def setdefault_add_def)

lemma loop_canvas_groups: "find_groups [(1, [0]), (0, [1, 4]), (2, [5]), (5, [2, 3]), (3, [5]), (4, [0])] [1, 0, 2, 5, 3, 4] {} []
   = Inr [[1, 0, 4], [2, 5, 3]]"
  by simp

lemma loop_canvas_merge: "build_merge loop_canvas (assign_nodes loop_canvas init_generator)
   = (Inr (merge_nodes [[1, 0, 4], [2, 5, 3]] (nodes (assign_nodes loop_canvas init_generator))
            (ground_keys (assign_nodes loop_canvas init_generator))), assign_nodes loop_canvas init_generator)"
  by (simp add: build_merge_def loop_canvas_wire loop_canvas_groups)

lemma loop_canvas_merge_values:
  "merge_nodes [[1, 0, 4], [2, 5, 3]] (nodes (assign_nodes loop_canvas init_generator))
     (ground_keys (assign_nodes loop_canvas init_generator)) 0 = Some 0"
  "merge_nodes [[1, 0, 4], [2, 5, 3]] (nodes (assign_nodes loop_canvas init_generator))
     (ground_keys (assign_nodes loop_canvas init_generator)) 1 = Some 0"
  "merge_nodes [[1, 0, 4], [2, 5, 3]] (nodes (assign_nodes loop_canvas init_generator))
     (ground_keys (assign_nodes loop_canvas init_generator)) 2 = Some 1"
  "merge_nodes [[1, 0, 4], [2, 5, 3]] (nodes (assign_nodes loop_canvas init_generator))
     (ground_keys (assign_nodes loop_canvas init_generator)) 3 = Some 1"
  "merge_nodes [[1, 0, 4], [2, 5, 3]] (nodes (assign_nodes loop_canvas init_generator))
     (ground_keys (assign_nodes loop_canvas init_generator)) 4 = Some 0"
  by (simp_all add: loop_canvas_assign merge_nodes_def merge_step1_def assign_group_def)

lemma loop_canvas_lookup:
  "lookup_node loop_canvas (assign_nodes loop_canvas init_generator) (- 30, 0) = Some 1"
  "lookup_node loop_canvas (assign_nodes loop_canvas init_generator) (30, 0) = Some 2"
  "lookup_node loop_canvas (assign_nodes loop_canvas init_generator) (170, 0) = Some 3"
  "lookup_node loop_canvas (assign_nodes loop_canvas init_generator) (230, 0) = Some 4"
  by (simp_all add: lookup_node_def loop_canvas_assign get_node_candidate loop_canvas_candidates grid_size_def)

lemma loop_canvas_run:
  "fst (generate_netlist init_generator loop_canvas (Map.empty(''R'' \<mapsto> ''220'')))
     = Inr (''V1 0 1 5'' @ [CHR 0x0A] @ ''R1 1 0 220'')"
  by (simp add: generate_netlist_def loop_canvas_merge loop_canvas_fields serialize_electrical serialize_skip
      electrical_def skipped_def merge_lookup_def loop_canvas_lookup loop_canvas_merge_values format_line_def spec_prefix_def
      spec_value_def spec_default_def str_int_def str_nat.simps digit_char_def)
lemma short_canvas_fields:
  "components short_canvas = [(''battery'', (200, 300)), (''resistor'', (200, 100))]"
  "lines short_canvas = [((170, 100), (230, 100))]"
  by (simp_all add: short_canvas_def)

lemma short_canvas_candidates:
  "set (candidates short_canvas) = {(170, 300), (230, 300), (170, 100), (230, 100)}"
  by (auto simp add: candidates_def short_canvas_fields)

lemma short_canvas_collect:
  "collect_all_pins short_canvas \<lparr>nodes = [], next_node_num = 1, all_pins = [], ground_keys = {}\<rparr> =
     \<lparr>nodes = [], next_node_num = 1,
      all_pins = [(170, 300), (230, 300), (170, 100), (230, 100), (170, 100), (230, 100)],
      ground_keys = {}\<rparr>"
  by (simp add: collect_all_pins_def short_canvas_fields py_tags)

lemma short_canvas_assign:
  "assign_nodes short_canvas init_generator =
     \<lparr>nodes = [((170, 300), 1), ((230, 300), 2), ((170, 100), 3), ((230, 100), 4)],
      next_node_num = 5,
      all_pins = [(170, 300), (230, 300), (170, 100), (230, 100), (170, 100), (230, 100)],
      ground_keys = {}\<rparr>"
  by (simp add: assign_nodes_def init_generator_def short_canvas_collect create_pass_def
       get_node_candidate short_canvas_candidates grid_size_def)

lemma short_canvas_wire:
  "build_wire_adj short_canvas (lines short_canvas) (assign_nodes short_canvas init_generator, [])
     = (assign_nodes short_canvas init_generator, [(3, [4]), (4, [3])])"
  by (simp add: short_canvas_assign short_canvas_fields get_node_candidate short_canvas_candidates
       grid_size_def add_def setdefault_add_def)

lemma short_canvas_groups: "find_groups [(3, [4]), (4, [3])] [3, 4] {} [] = Inr [[3, 4]]"
  by simp

lemma short_canvas_merge:
  "build_merge short_canvas (assign_nodes short_canvas init_generator)
     = (Inr (merge_nodes [[3, 4]] (nodes (assign_nodes short_canvas init_generator))
               (ground_keys (assign_nodes short_canvas init_generator))),
        assign_nodes short_canvas init_generator)"
  by (simp add: build_merge_def short_canvas_wire short_canvas_groups)

lemma short_canvas_merge_values:
  "merge_nodes [[3, 4]] (nodes (assign_nodes short_canvas init_generator))
     (ground_keys (assign_nodes short_canvas init_generator)) 1 = Some 2"
  "merge_nodes [[3, 4]] (nodes (assign_nodes short_canvas init_generator))
     (ground_keys (assign_nodes short_canvas init_generator)) 2 = Some 3"
  "merge_nodes [[3, 4]] (nodes (assign_nodes short_canvas init_generator))
     (ground_keys (assign_nodes short_canvas init_generator)) 3 = Some 1"
  "merge_nodes [[3, 4]] (nodes (assign_nodes short_canvas init_generator))
     (ground_keys (assign_nodes short_canvas init_generator)) 4 = Some 1"
  by (simp_all add: short_canvas_assign merge_nodes_def merge_step1_def assign_group_def)

lemma short_canvas_lookup:
  "lookup_node short_canvas (assign_nodes short_canvas init_generator) (170, 300) = Some 1"
  "lookup_node short_canvas (assign_nodes short_canvas init_generator) (230, 300) = Some 2"
  "lookup_node short_canvas (assign_nodes short_canvas init_generator) (170, 100) = Some 3"
  "lookup_node short_canvas (assign_nodes short_canvas init_generator) (230, 100) = Some 4"
  by (simp_all add: lookup_node_def short_canvas_assign get_node_candidate short_canvas_candidates
       grid_size_def)

lemma short_canvas_final:
  "final_node short_canvas init_generator (170, 300) = Inr 2"
  "final_node short_canvas init_generator (230, 300) = Inr 3"
  "final_node short_canvas init_generator (170, 100) = Inr 1"
  "final_node short_canvas init_generator (230, 100) = Inr 1"
  by (simp_all add: final_node_lookup [OF short_canvas_merge] short_canvas_lookup
       short_canvas_merge_values merge_lookup_def)

theorem short_circuit_raises_witness:
  "(''resistor'', (200, 100)) \<in> set (components short_canvas)
   \<and> components short_canvas = [(''battery'', (200, 300))] @ (''resistor'', (200, 100)) # []
   \<and> final_node short_canvas init_generator (get_component_pins ''resistor'' (200, 100) ! 0) = Inr 1
   \<and> final_node short_canvas init_generator (get_component_pins ''resistor'' (200, 100) ! 1) = Inr 1
   \<and> pins_resolve (final_node short_canvas init_generator) (''battery'', (200, 300))
   \<and> fst (generate_netlist init_generator short_canvas Map.empty) = Inl (ValueError_shorted ''resistor'' 1)"
proof -
  have 0: "(''resistor'', (200, 100)) \<in> set (components short_canvas)"
    by (simp add: short_canvas_def)
  have 1: "components short_canvas = [(''battery'', (200, 300))] @ (''resistor'', (200, 100)) # []"
    by (simp add: short_canvas_def)
  have 2: "''resistor'' \<in> {''resistor'', ''battery'', ''capacitor'', ''inductor''}" by simp
  have 3: "final_node short_canvas init_generator (get_component_pins ''resistor'' (200, 100) ! 0) = Inr 1"
    "final_node short_canvas init_generator (get_component_pins ''resistor'' (200, 100) ! 1) = Inr 1"
    by (simp_all add: short_canvas_final)
  have 4: "pins_resolve (final_node short_canvas init_generator) (''battery'', (200, 300))"
    by (simp add: pins_resolve_def short_canvas_final)
  then have 5: "\<forall>cp\<in>set [(''battery'', (200, 300))]. passes (final_node short_canvas init_generator) cp"
    by (simp add: passes_def electrical_def)
  from short_circuit_raises [OF 0 2 3, of Map.empty] 1 5
  have "fst (generate_netlist init_generator short_canvas Map.empty) = Inl (ValueError_shorted ''resistor'' 1)"
    by blast
  with 0 1 3 4 show ?thesis by blast
qed

theorem netlist_lines_witness:
  "fst (generate_netlist init_generator loop_canvas (Map.empty(''R'' \<mapsto> ''220'')))
     = Inr (''V1 0 1 5'' @ [CHR 0x0A] @ ''R1 1 0 220'')
   \<and> ''V1 0 1 5'' @ [CHR 0x0A] @ ''R1 1 0 220''
     = join_lines (spec_lines (\<lambda>pin. projr (final_node loop_canvas init_generator pin))
         (Map.empty(''R'' \<mapsto> ''220'')) [] (components loop_canvas))
   \<and> length (spec_lines (\<lambda>pin. projr (final_node loop_canvas init_generator pin))
         (Map.empty(''R'' \<mapsto> ''220'')) [] (components loop_canvas)) = 2"
proof -
  have "length (filter (\<lambda>cp. fst cp \<in> {''resistor'', ''battery'', ''capacitor'', ''inductor''}) (components loop_canvas)) = 2"
    by (simp add: loop_canvas_def)
  with netlist_lines [OF loop_canvas_run] loop_canvas_run show ?thesis by simp
qed

section \<open>The merge table\<close>

lemma assign_group_apply: "assign_group m g v n = (if n \<in> set g then Some v else m n)"
  unfolding assign_group_def by (induction g arbitrary: m) auto

lemma merge_step1_apply:
  "merge_step1 groups m n = (if \<exists>g\<in>set groups. 0 \<in> set g \<and> n \<in> set g then Some 0 else m n)"
  unfolding merge_step1_def
  by (induction groups arbitrary: m) (auto simp: assign_group_apply list_ex_iff)

lemma disjoint_groupsD:
  "disjoint_groups gs \<Longrightarrow> g \<in> set gs \<Longrightarrow> h \<in> set gs \<Longrightarrow> g \<noteq> h \<Longrightarrow> set g \<inter> set h = {}"
  by (induction gs) auto

lemma merge_step2_apply:
  assumes "disjoint_groups gs"
    and "\<forall>g\<in>set gs. (0 \<in> set g \<longrightarrow> (\<forall>n\<in>set g. m n = Some 0))
                    \<and> (0 \<notin> set g \<longrightarrow> (\<forall>n\<in>set g. m n \<noteq> Some 0))"
  shows "snd (merge_step2 gs (m, k)) = k + int (length (nonground gs))
    \<and> (\<forall>i<length (nonground gs). \<forall>n\<in>set (nonground gs ! i).
          fst (merge_step2 gs (m, k)) n = Some (k + int i))
    \<and> (\<forall>n. (\<forall>g\<in>set (nonground gs). n \<notin> set g) \<longrightarrow> fst (merge_step2 gs (m, k)) n = m n)"
  using assms
proof (induction gs arbitrary: m k)
  case Nil
  show ?case by (simp add: nonground_def)
next
  case (Cons g gs)
  from Cons.prems(1) have dg: "disjoint_groups gs" and dj: "\<forall>h\<in>set gs. set g \<inter> set h = {}"
    by simp_all
  show ?case
  proof (cases "0 \<in> set g")
    case True
    with Cons.prems(2) have "m 0 = Some 0" by auto
    with True have ex: "list_ex (\<lambda>n. m n = Some 0) g" by (auto simp: list_ex_iff)
    from Cons.prems(2) have pre: "\<forall>g\<in>set gs. (0 \<in> set g \<longrightarrow> (\<forall>n\<in>set g. m n = Some 0))
                    \<and> (0 \<notin> set g \<longrightarrow> (\<forall>n\<in>set g. m n \<noteq> Some 0))" by simp
    from Cons.IH [OF dg pre, of k] ex True show ?thesis by (simp add: nonground_def)
  next
    case False
    with Cons.prems(2) have nex: "\<not> list_ex (\<lambda>n. m n = Some 0) g" by (auto simp: list_ex_iff)
    let ?m1 = "assign_group m g k"
    have same: "?m1 n = m n" if "h \<in> set gs" "n \<in> set h" for h n
      using dj that by (auto simp: assign_group_apply)
    with Cons.prems(2) have pre: "\<forall>h\<in>set gs. (0 \<in> set h \<longrightarrow> (\<forall>n\<in>set h. ?m1 n = Some 0))
                    \<and> (0 \<notin> set h \<longrightarrow> (\<forall>n\<in>set h. ?m1 n \<noteq> Some 0))" by simp
    note IH = Cons.IH [OF dg pre, of "k + 1"]
    have step: "merge_step2 (g # gs) (m, k) = merge_step2 gs (?m1, k + 1)"
      using nex by simp
    have ng: "nonground (g # gs) = g # nonground gs" using False by (simp add: nonground_def)
    have ngsub: "set (nonground gs) \<subseteq> set gs" by (auto simp: nonground_def)
    have 1: "snd (merge_step2 (g # gs) (m, k)) = k + int (length (nonground (g # gs)))"
      unfolding step ng using IH by simp
    have 2: "fst (merge_step2 (g # gs) (m, k)) n = Some (k + int i)"
      if "i < length (nonground (g # gs))" "n \<in> set (nonground (g # gs) ! i)" for i n
    proof (cases i)
      case 0
      with that have n: "n \<in> set g" by (simp add: ng)
      with dj ngsub have "\<forall>h\<in>set (nonground gs). n \<notin> set h" by auto
      with IH have "fst (merge_step2 gs (?m1, k + 1)) n = ?m1 n" by blast
      with n 0 show ?thesis unfolding step by (simp add: assign_group_apply)
    next
      case (Suc j)
      with that have "j < length (nonground gs)" "n \<in> set (nonground gs ! j)" by (simp_all add: ng)
      with IH have "fst (merge_step2 gs (?m1, k + 1)) n = Some (k + 1 + int j)" by blast
      with Suc show ?thesis unfolding step by simp
    qed
    have 3: "fst (merge_step2 (g # gs) (m, k)) n = m n"
      if "\<forall>h\<in>set (nonground (g # gs)). n \<notin> set h" for n
    proof -
      from that have "n \<notin> set g" "\<forall>h\<in>set (nonground gs). n \<notin> set h" by (simp_all add: ng)
      with IH have "fst (merge_step2 gs (?m1, k + 1)) n = ?m1 n" by blast
      with \<open>n \<notin> set g\<close> show ?thesis unfolding step by (simp add: assign_group_apply)
    qed
    from 1 2 3 show ?thesis by blast
  qed
qed

lemma merge_step3_apply:
  assumes "distinct (map snd nds)"
  shows "(\<forall>j<length (filter (\<lambda>e. m (snd e) = None) nds).
            fst (merge_step3 nds gk (m, k)) (snd (filter (\<lambda>e. m (snd e) = None) nds ! j))
              = (if fst (filter (\<lambda>e. m (snd e) = None) nds ! j) \<in> gk then Some 0
                 else Some (k + fresh_before gk (filter (\<lambda>e. m (snd e) = None) nds) j)))
    \<and> (\<forall>n. n \<notin> snd ` set (filter (\<lambda>e. m (snd e) = None) nds)
          \<longrightarrow> fst (merge_step3 nds gk (m, k)) n = m n)"
  using assms
proof (induction nds arbitrary: m k)
  case Nil
  show ?case by simp
next
  case (Cons e nds)
  obtain key nid where e: "e = (key, nid)" by (cases e)
  from Cons.prems e have dn: "distinct (map snd nds)" and fresh: "nid \<notin> snd ` set nds" by auto
  show ?case
  proof (cases "m nid = None")
    case False
    then have "merge_step3 (e # nds) gk (m, k) = merge_step3 nds gk (m, k)"
      and "filter (\<lambda>e. m (snd e) = None) (e # nds) = filter (\<lambda>e. m (snd e) = None) nds"
      by (auto simp: e)
    with Cons.IH [OF dn, of m k] show ?thesis by simp
  next
    case True
    let ?v = "if key \<in> gk then 0 else k" and ?k1 = "if key \<in> gk then k else k + 1"
    let ?m1 = "m(nid \<mapsto> ?v)"
    let ?iso = "filter (\<lambda>e. m (snd e) = None) nds"
    have step: "merge_step3 (e # nds) gk (m, k) = merge_step3 nds gk (?m1, ?k1)"
      using True by (simp add: e)
    have iso1: "filter (\<lambda>e. ?m1 (snd e) = None) nds = ?iso"
      using fresh by (intro filter_cong) (auto simp: image_iff)
    have iso: "filter (\<lambda>e. m (snd e) = None) (e # nds) = (key, nid) # ?iso"
      using True by (simp add: e)
    note IH = Cons.IH [OF dn, of ?m1 ?k1, unfolded iso1]
    have 1: "fst (merge_step3 (e # nds) gk (m, k)) (snd (((key, nid) # ?iso) ! j))
        = (if fst (((key, nid) # ?iso) ! j) \<in> gk then Some 0
           else Some (k + fresh_before gk ((key, nid) # ?iso) j))"
      if "j < length ((key, nid) # ?iso)" for j
    proof (cases j)
      case 0
      from fresh have "nid \<notin> snd ` set ?iso" by auto
      with IH have "fst (merge_step3 nds gk (?m1, ?k1)) nid = ?m1 nid" by blast
      with 0 show ?thesis by (simp add: step fresh_before_def)
    next
      case (Suc i)
      with that have "i < length ?iso" by simp
      with IH have "fst (merge_step3 nds gk (?m1, ?k1)) (snd (?iso ! i))
          = (if fst (?iso ! i) \<in> gk then Some 0 else Some (?k1 + fresh_before gk ?iso i))"
        by blast
      with Suc show ?thesis by (simp add: step fresh_before_def)
    qed
    have 2: "fst (merge_step3 (e # nds) gk (m, k)) n = m n"
      if "n \<notin> snd ` set ((key, nid) # ?iso)" for n
    proof -
      from that have "n \<noteq> nid" "n \<notin> snd ` set ?iso" by auto
      with IH have "fst (merge_step3 nds gk (?m1, ?k1)) n = ?m1 n" by blast
      with \<open>n \<noteq> nid\<close> show ?thesis by (simp add: step)
    qed
    from 1 2 show ?thesis unfolding iso by blast
  qed
qed


lemma nonground_nth_mem: "i < length (nonground gs) \<Longrightarrow> nonground gs ! i \<in> set gs \<and> 0 \<notin> set (nonground gs ! i)"
proof -
  assume "i < length (nonground gs)"
  then have "nonground gs ! i \<in> set (nonground gs)" by (rule nth_mem)
  then show ?thesis by (simp add: nonground_def)
qed

lemma merge_after_step2:
  assumes dg: "disjoint_groups groups"
  defines "m2 \<equiv> fst (merge_step2 groups (merge_step1 groups Map.empty, 1))"
  shows "\<forall>g\<in>set groups. 0 \<in> set g \<longrightarrow> (\<forall>n\<in>set g. m2 n = Some 0)"
    and "\<forall>i<length (nonground groups). \<forall>n\<in>set (nonground groups ! i). m2 n = Some (1 + int i)"
    and "\<forall>n. m2 n = None \<longleftrightarrow> (\<forall>g\<in>set groups. n \<notin> set g)"
    and "snd (merge_step2 groups (merge_step1 groups Map.empty, 1)) = 1 + int (length (nonground groups))"
proof -
  let ?m1 = "merge_step1 groups Map.empty"
  have m1: "?m1 n = (if \<exists>g\<in>set groups. 0 \<in> set g \<and> n \<in> set g then Some 0 else None)" for n
    by (simp add: merge_step1_apply)
  have pre: "\<forall>g\<in>set groups. (0 \<in> set g \<longrightarrow> (\<forall>n\<in>set g. ?m1 n = Some 0))
                    \<and> (0 \<notin> set g \<longrightarrow> (\<forall>n\<in>set g. ?m1 n \<noteq> Some 0))"
  proof (intro ballI conjI impI)
    fix g n assume "g \<in> set groups" "0 \<in> set g" "n \<in> set g"
    then show "?m1 n = Some 0" by (auto simp: m1)
  next
    fix g n assume g: "g \<in> set groups" "0 \<notin> set g" "n \<in> set g"
    have "\<not> (\<exists>h\<in>set groups. 0 \<in> set h \<and> n \<in> set h)"
    proof
      assume "\<exists>h\<in>set groups. 0 \<in> set h \<and> n \<in> set h"
      then obtain h where h: "h \<in> set groups" "0 \<in> set h" "n \<in> set h" by blast
      with g have "g \<noteq> h" by auto
      from disjoint_groupsD [OF dg g(1) h(1) this] g(3) h(3) show False by auto
    qed
    then show "?m1 n \<noteq> Some 0" by (simp add: m1)
  qed
  note s2 = merge_step2_apply [OF dg pre, of 1, folded m2_def]
  from s2 show k: "snd (merge_step2 groups (merge_step1 groups Map.empty, 1)) = 1 + int (length (nonground groups))"
    by blast
  from s2 show b: "\<forall>i<length (nonground groups). \<forall>n\<in>set (nonground groups ! i). m2 n = Some (1 + int i)"
    by blast
  from s2 have rest: "\<And>n. (\<forall>g\<in>set (nonground groups). n \<notin> set g) \<Longrightarrow> m2 n = ?m1 n" by blast
  have ng_disj: "n \<notin> set h" if "g \<in> set groups" "0 \<in> set g" "n \<in> set g" "h \<in> set (nonground groups)" for g h n
  proof -
    from that(4) have h: "h \<in> set groups" "0 \<notin> set h" by (auto simp: nonground_def)
    with that have "g \<noteq> h" by auto
    from disjoint_groupsD [OF dg that(1) h(1) this] that(3) show ?thesis by auto
  qed
  show a: "\<forall>g\<in>set groups. 0 \<in> set g \<longrightarrow> (\<forall>n\<in>set g. m2 n = Some 0)"
  proof (intro ballI impI)
    fix g n assume g: "g \<in> set groups" "0 \<in> set g" "n \<in> set g"
    then have "\<forall>h\<in>set (nonground groups). n \<notin> set h" using ng_disj by blast
    from rest [OF this] g show "m2 n = Some 0" by (auto simp: m1)
  qed
  show "\<forall>n. m2 n = None \<longleftrightarrow> (\<forall>g\<in>set groups. n \<notin> set g)"
  proof (intro allI iffI)
    fix n assume none: "m2 n = None"
    show "\<forall>g\<in>set groups. n \<notin> set g"
    proof (intro ballI notI)
      fix g assume g: "g \<in> set groups" "n \<in> set g"
      show False
      proof (cases "0 \<in> set g")
        case True
        with a g none show False by auto
      next
        case False
        with g have "g \<in> set (nonground groups)" by (simp add: nonground_def)
        then obtain i where "i < length (nonground groups)" "nonground groups ! i = g"
          by (auto simp: in_set_conv_nth)
        with b g(2) none show False by auto
      qed
    qed
  next
    fix n assume no: "\<forall>g\<in>set groups. n \<notin> set g"
    then have "\<forall>g\<in>set (nonground groups). n \<notin> set g" by (auto simp: nonground_def)
    from rest [OF this] no show "m2 n = None" by (auto simp: m1)
  qed
qed

lemma merge_nodes_values:
  assumes "disjoint_groups groups" and "distinct (map snd nds)"
  shows "(\<forall>g\<in>set groups. 0 \<in> set g \<longrightarrow> (\<forall>n\<in>set g. merge_nodes groups nds gk n = Some 0))
    \<and> (\<forall>i<length (nonground groups). \<forall>n\<in>set (nonground groups ! i).
          merge_nodes groups nds gk n = Some (1 + int i))
    \<and> (\<forall>j<length (isolated groups nds).
          merge_nodes groups nds gk (snd (isolated groups nds ! j))
            = (if fst (isolated groups nds ! j) \<in> gk then Some 0
               else Some (1 + int (length (nonground groups)) + fresh_before gk (isolated groups nds) j)))"
proof -
  define m2 where "m2 = fst (merge_step2 groups (merge_step1 groups Map.empty, 1))"
  define k2 where "k2 = 1 + int (length (nonground groups))"
  note s2 = merge_after_step2 [OF assms(1), folded m2_def k2_def]
  have pair: "merge_step2 groups (merge_step1 groups Map.empty, 1) = (m2, k2)"
    using s2(4) by (simp add: m2_def prod_eq_iff)
  have mn: "merge_nodes groups nds gk = fst (merge_step3 nds gk (m2, k2))"
    by (simp add: merge_nodes_def pair)
  have iso: "filter (\<lambda>e. m2 (snd e) = None) nds = isolated groups nds"
    unfolding isolated_def using s2(3) by (intro filter_cong) auto
  note s3 = merge_step3_apply [OF assms(2), of m2 gk k2, unfolded iso, folded mn]
  have keep: "merge_nodes groups nds gk n = m2 n" if "g \<in> set groups" "n \<in> set g" for g n
  proof -
    from that have "n \<notin> snd ` set (isolated groups nds)" by (auto simp: isolated_def)
    with s3 show ?thesis by blast
  qed
  have a: "\<forall>g\<in>set groups. 0 \<in> set g \<longrightarrow> (\<forall>n\<in>set g. merge_nodes groups nds gk n = Some 0)"
    using s2(1) keep by auto
  have b: "\<forall>i<length (nonground groups). \<forall>n\<in>set (nonground groups ! i).
          merge_nodes groups nds gk n = Some (1 + int i)"
  proof (intro allI impI ballI)
    fix i n assume i: "i < length (nonground groups)" "n \<in> set (nonground groups ! i)"
    from nonground_nth_mem [OF i(1)] i(2) have "merge_nodes groups nds gk n = m2 n"
      by (blast intro: keep)
    with s2(2) i show "merge_nodes groups nds gk n = Some (1 + int i)" by auto
  qed
  from s3 have c: "\<forall>j<length (isolated groups nds).
          merge_nodes groups nds gk (snd (isolated groups nds ! j))
            = (if fst (isolated groups nds ! j) \<in> gk then Some 0
               else Some (k2 + fresh_before gk (isolated groups nds) j))" by blast
  from a b c show ?thesis unfolding k2_def by blast
qed


lemma run_merge_hypotheses:
  "\<exists>groups. find_groups (wire_graph c (assign_nodes c s0)) (map fst (wire_graph c (assign_nodes c s0))) {} []
        = Inr groups
     \<and> build_merge c (assign_nodes c s0)
        = (Inr (merge_nodes groups (nodes (assign_nodes c s0)) (ground_keys (assign_nodes c s0))),
           assign_nodes c s0)
     \<and> disjoint_groups groups \<and> distinct (map snd (nodes (assign_nodes c s0)))"
proof -
  have "nodes_inv (assign_nodes c s0)"
    by (subst assign_nodes_upto) (rule creation_upto_inv)
  then have "distinct (map snd (nodes (assign_nodes c s0)))" by (simp add: nodes_inv_def)
  then show ?thesis using build_merge_groups [of c "assign_nodes c s0"] by metis
qed

lemma run_merge_values:
  "\<exists>groups. find_groups (wire_graph c (assign_nodes c s0)) (map fst (wire_graph c (assign_nodes c s0))) {} []
        = Inr groups
     \<and> build_merge c (assign_nodes c s0)
        = (Inr (merge_nodes groups (nodes (assign_nodes c s0)) (ground_keys (assign_nodes c s0))),
           assign_nodes c s0)
     \<and> (\<forall>g\<in>set groups. 0 \<in> set g \<longrightarrow>
           (\<forall>n\<in>set g. merge_nodes groups (nodes (assign_nodes c s0)) (ground_keys (assign_nodes c s0)) n
              = Some 0))
     \<and> (\<forall>i<length (nonground groups). \<forall>n\<in>set (nonground groups ! i).
           merge_nodes groups (nodes (assign_nodes c s0)) (ground_keys (assign_nodes c s0)) n
             = Some (1 + int i))
     \<and> (\<forall>j<length (isolated groups (nodes (assign_nodes c s0))).
           merge_nodes groups (nodes (assign_nodes c s0)) (ground_keys (assign_nodes c s0))
               (snd (isolated groups (nodes (assign_nodes c s0)) ! j))
             = Some (1 + int (length (nonground groups)) + int j))"
proof -
  let ?s = "assign_nodes c s0"
  from run_merge_hypotheses [of c s0] obtain groups where
    g: "find_groups (wire_graph c ?s) (map fst (wire_graph c ?s)) {} [] = Inr groups"
    and bm: "build_merge c ?s = (Inr (merge_nodes groups (nodes ?s) (ground_keys ?s)), ?s)"
    and d: "disjoint_groups groups" "distinct (map snd (nodes ?s))"
    by blast
  have "nodes_inv ?s" by (subst assign_nodes_upto) (rule creation_upto_inv)
  then have ng: "\<forall>e\<in>set (nodes ?s). fst e \<notin> ground_keys ?s"
    unfolding nodes_inv_def by (metis prod.collapse)
  note v = merge_nodes_values [OF d, of "ground_keys ?s"]
  have iso_ng: "\<forall>e\<in>set (isolated groups (nodes ?s)). fst e \<notin> ground_keys ?s"
    using ng by (simp add: isolated_def)
  have fb: "fresh_before (ground_keys ?s) (isolated groups (nodes ?s)) j = int j"
    if "j < length (isolated groups (nodes ?s))" for j
  proof -
    have "set (take j (isolated groups (nodes ?s))) \<subseteq> set (isolated groups (nodes ?s))"
      by (rule set_take_subset)
    with iso_ng have "filter (\<lambda>e. fst e \<notin> ground_keys ?s) (take j (isolated groups (nodes ?s)))
        = take j (isolated groups (nodes ?s))" by (auto simp: filter_id_conv)
    with that show ?thesis by (simp add: fresh_before_def)
  qed
  have c3: "\<forall>j<length (isolated groups (nodes ?s)).
           merge_nodes groups (nodes ?s) (ground_keys ?s) (snd (isolated groups (nodes ?s) ! j))
             = Some (1 + int (length (nonground groups)) + int j)"
  proof (intro allI impI)
    fix j assume j: "j < length (isolated groups (nodes ?s))"
    then have "isolated groups (nodes ?s) ! j \<in> set (isolated groups (nodes ?s))" by (rule nth_mem)
    with iso_ng have "fst (isolated groups (nodes ?s) ! j) \<notin> ground_keys ?s" by blast
    moreover from v j have "merge_nodes groups (nodes ?s) (ground_keys ?s) (snd (isolated groups (nodes ?s) ! j))
        = (if fst (isolated groups (nodes ?s) ! j) \<in> ground_keys ?s then Some 0
           else Some (1 + int (length (nonground groups))
                  + fresh_before (ground_keys ?s) (isolated groups (nodes ?s)) j))" by blast
    ultimately show "merge_nodes groups (nodes ?s) (ground_keys ?s) (snd (isolated groups (nodes ?s) ! j))
             = Some (1 + int (length (nonground groups)) + int j)"
      by (simp add: fb [OF j])
  qed
  from v have a: "\<forall>g\<in>set groups. 0 \<in> set g \<longrightarrow>
           (\<forall>n\<in>set g. merge_nodes groups (nodes ?s) (ground_keys ?s) n = Some 0)" by blast
  from v have b: "\<forall>i<length (nonground groups). \<forall>n\<in>set (nonground groups ! i).
           merge_nodes groups (nodes ?s) (ground_keys ?s) n = Some (1 + int i)" by blast
  from g bm a b c3 show ?thesis by blast
qed

section \<open>Which raw nodes the merge table covers\<close>

lemma merge_nodes_None_iff:
  assumes "disjoint_groups groups" and "distinct (map snd nds)"
  shows "merge_nodes groups nds gk n = None
     \<longleftrightarrow> (\<forall>g\<in>set groups. n \<notin> set g) \<and> n \<notin> snd ` set nds"
proof -
  define m2 where "m2 = fst (merge_step2 groups (merge_step1 groups Map.empty, 1))"
  define k2 where "k2 = 1 + int (length (nonground groups))"
  note s2 = merge_after_step2 [OF assms(1), folded m2_def k2_def]
  have pair: "merge_step2 groups (merge_step1 groups Map.empty, 1) = (m2, k2)"
    using s2(4) by (simp add: m2_def prod_eq_iff)
  have mn: "merge_nodes groups nds gk = fst (merge_step3 nds gk (m2, k2))"
    by (simp add: merge_nodes_def pair)
  have iso: "filter (\<lambda>e. m2 (snd e) = None) nds = isolated groups nds"
    unfolding isolated_def using s2(3) by (intro filter_cong) auto
  note s3 = merge_step3_apply [OF assms(2), of m2 gk k2, unfolded iso, folded mn]
  show ?thesis
  proof (cases "n \<in> snd ` set (isolated groups nds)")
    case True
    then obtain j where j: "j < length (isolated groups nds)" "snd (isolated groups nds ! j) = n"
      by (auto simp: in_set_conv_nth)
    from s3 j(1) have "merge_nodes groups nds gk (snd (isolated groups nds ! j))
        = (if fst (isolated groups nds ! j) \<in> gk then Some 0
           else Some (k2 + fresh_before gk (isolated groups nds) j))" by blast
    with j(2) have "merge_nodes groups nds gk n \<noteq> None" by (simp split: if_splits)
    moreover from True have "n \<in> snd ` set nds" by (auto simp: isolated_def)
    ultimately show ?thesis by simp
  next
    case False
    with s3 have "merge_nodes groups nds gk n = m2 n" by blast
    moreover from False have "(\<forall>g\<in>set groups. n \<notin> set g) \<Longrightarrow> n \<notin> snd ` set nds"
      by (force simp: isolated_def)
    ultimately show ?thesis using s2(3) by auto
  qed
qed

lemma merge_nodes_zero_iff:
  assumes "disjoint_groups groups" and "distinct (map snd nds)"
    and "\<forall>k n. (k, n) \<in> set nds \<longrightarrow> k \<notin> gk"
  shows "merge_nodes groups nds gk n = Some 0 \<longleftrightarrow> (\<exists>g\<in>set groups. 0 \<in> set g \<and> n \<in> set g)"
proof
  assume "\<exists>g\<in>set groups. 0 \<in> set g \<and> n \<in> set g"
  with merge_nodes_values [OF assms(1,2), of gk] show "merge_nodes groups nds gk n = Some 0" by blast
next
  assume z: "merge_nodes groups nds gk n = Some 0"
  note spec = merge_nodes_values [OF assms(1,2), of gk]
  from z merge_nodes_None_iff [OF assms(1,2), of gk n]
  consider (grp) g where "g \<in> set groups" "n \<in> set g" | (tab) "\<forall>g\<in>set groups. n \<notin> set g" "n \<in> snd ` set nds"
    by auto
  then show "\<exists>g\<in>set groups. 0 \<in> set g \<and> n \<in> set g"
  proof cases
    case grp
    show ?thesis
    proof (cases "0 \<in> set g")
      case True
      with grp show ?thesis by blast
    next
      case False
      with grp have "g \<in> set (nonground groups)" by (simp add: nonground_def)
      then obtain i where "i < length (nonground groups)" "nonground groups ! i = g"
        by (auto simp: in_set_conv_nth)
      with spec grp(2) have "merge_nodes groups nds gk n = Some (1 + int i)" by blast
      with z show ?thesis by simp
    qed
  next
    case tab
    then have "n \<in> snd ` set (isolated groups nds)" by (force simp: isolated_def)
    then obtain j where j: "j < length (isolated groups nds)" "snd (isolated groups nds ! j) = n"
      by (auto simp: in_set_conv_nth)
    from j(1) have "isolated groups nds ! j \<in> set (isolated groups nds)" by (rule nth_mem)
    then have "isolated groups nds ! j \<in> set nds" by (simp add: isolated_def)
    then have "(fst (isolated groups nds ! j), snd (isolated groups nds ! j)) \<in> set nds" by simp
    with assms(3) have ng: "fst (isolated groups nds ! j) \<notin> gk" by blast
    from spec j(1) have "merge_nodes groups nds gk (snd (isolated groups nds ! j))
        = (if fst (isolated groups nds ! j) \<in> gk then Some 0
           else Some (1 + int (length (nonground groups)) + fresh_before gk (isolated groups nds) j))"
      by blast
    with ng j(2) have "merge_nodes groups nds gk n
        = Some (1 + int (length (nonground groups)) + fresh_before gk (isolated groups nds) j)"
      by simp
    with z show ?thesis by (simp add: fresh_before_def)
  qed
qed

lemma lookup_node_cases:
  "lookup_node c s pin = None \<or> lookup_node c s pin = Some 0
     \<or> (\<exists>k n. (k, n) \<in> set (nodes s) \<and> lookup_node c s pin = Some n)"
proof (cases rule: get_node_cases [of c pin s False])
  case (found k nid)
  from found(2) have "(k, nid) \<in> set (nodes s)" by (auto simp: find_Some_iff)
  moreover from found(3) have "lookup_node c s pin = Some nid" by (simp add: lookup_node_def)
  ultimately show ?thesis by blast
qed (simp_all add: lookup_node_def)

lemma final_node_run:
  "\<exists>groups. find_groups (wire_graph c (assign_nodes c s0)) (map fst (wire_graph c (assign_nodes c s0))) {} []
        = Inr groups
     \<and> disjoint_groups groups \<and> distinct (map snd (nodes (assign_nodes c s0)))
     \<and> (\<forall>k n. (k, n) \<in> set (nodes (assign_nodes c s0)) \<longrightarrow> k \<notin> ground_keys (assign_nodes c s0))
     \<and> (\<forall>pin. final_node c s0 pin
           = merge_lookup (merge_nodes groups (nodes (assign_nodes c s0)) (ground_keys (assign_nodes c s0)))
               (lookup_node c (assign_nodes c s0) pin))"
proof -
  from run_merge_hypotheses [of c s0] obtain groups where
    g: "find_groups (wire_graph c (assign_nodes c s0)) (map fst (wire_graph c (assign_nodes c s0))) {} []
        = Inr groups"
    and bm: "build_merge c (assign_nodes c s0)
        = (Inr (merge_nodes groups (nodes (assign_nodes c s0)) (ground_keys (assign_nodes c s0))),
           assign_nodes c s0)"
    and d: "disjoint_groups groups" "distinct (map snd (nodes (assign_nodes c s0)))"
    by blast
  have "nodes_inv (assign_nodes c s0)"
    by (subst assign_nodes_upto) (rule creation_upto_inv)
  then have ng: "\<forall>k n. (k, n) \<in> set (nodes (assign_nodes c s0)) \<longrightarrow> k \<notin> ground_keys (assign_nodes c s0)"
    unfolding nodes_inv_def by blast
  from g d ng final_node_lookup [OF bm] show ?thesis by blast
qed

lemma final_node_zero_iff:
  "final_node c s0 pin = Inr 0 \<longleftrightarrow>
     (\<exists>groups g r.
        find_groups (wire_graph c (assign_nodes c s0)) (map fst (wire_graph c (assign_nodes c s0))) {} []
          = Inr groups
        \<and> lookup_node c (assign_nodes c s0) pin = Some r \<and> g \<in> set groups \<and> 0 \<in> set g \<and> r \<in> set g)"
proof -
  from final_node_run [of c s0] obtain groups where
    g: "find_groups (wire_graph c (assign_nodes c s0)) (map fst (wire_graph c (assign_nodes c s0))) {} []
        = Inr groups"
    and d: "disjoint_groups groups" "distinct (map snd (nodes (assign_nodes c s0)))"
      "\<forall>k n. (k, n) \<in> set (nodes (assign_nodes c s0)) \<longrightarrow> k \<notin> ground_keys (assign_nodes c s0)"
    and fn: "\<And>pin. final_node c s0 pin
           = merge_lookup (merge_nodes groups (nodes (assign_nodes c s0)) (ground_keys (assign_nodes c s0)))
               (lookup_node c (assign_nodes c s0) pin)"
    by blast
  note z = merge_nodes_zero_iff [OF d]
  show ?thesis
  proof
    assume "final_node c s0 pin = Inr 0"
    then obtain r where r: "lookup_node c (assign_nodes c s0) pin = Some r"
      "merge_nodes groups (nodes (assign_nodes c s0)) (ground_keys (assign_nodes c s0)) r = Some 0"
      by (auto simp: fn merge_lookup_def split: option.splits)
    with z [of r] g show "\<exists>groups g r.
        find_groups (wire_graph c (assign_nodes c s0)) (map fst (wire_graph c (assign_nodes c s0))) {} []
          = Inr groups
        \<and> lookup_node c (assign_nodes c s0) pin = Some r \<and> g \<in> set groups \<and> 0 \<in> set g \<and> r \<in> set g"
      by blast
  next
    assume "\<exists>groups g r.
        find_groups (wire_graph c (assign_nodes c s0)) (map fst (wire_graph c (assign_nodes c s0))) {} []
          = Inr groups
        \<and> lookup_node c (assign_nodes c s0) pin = Some r \<and> g \<in> set groups \<and> 0 \<in> set g \<and> r \<in> set g"
    with g obtain h r where "lookup_node c (assign_nodes c s0) pin = Some r" "h \<in> set groups"
      "0 \<in> set h" "r \<in> set h" by auto
    with z [of r] show "final_node c s0 pin = Inr 0" by (auto simp: fn merge_lookup_def)
  qed
qed

lemma final_node_error:
  assumes "final_node c s0 pin = Inl e"
  shows "e = KeyError \<and> (lookup_node c (assign_nodes c s0) pin = None
           \<or> lookup_node c (assign_nodes c s0) pin = Some 0)"
proof -
  from final_node_run [of c s0] obtain groups where
    d: "disjoint_groups groups" "distinct (map snd (nodes (assign_nodes c s0)))"
    and fn: "\<And>pin. final_node c s0 pin
           = merge_lookup (merge_nodes groups (nodes (assign_nodes c s0)) (ground_keys (assign_nodes c s0)))
               (lookup_node c (assign_nodes c s0) pin)"
    by blast
  note n = merge_nodes_None_iff [OF d, of "ground_keys (assign_nodes c s0)"]
  from assms have e: "e = KeyError" by (auto simp: fn merge_lookup_def split: option.splits)
  from lookup_node_cases [of c "assign_nodes c s0" pin]
  show ?thesis
  proof (elim disjE exE conjE)
    fix k r assume "(k, r) \<in> set (nodes (assign_nodes c s0))" "lookup_node c (assign_nodes c s0) pin = Some r"
    moreover then have "merge_nodes groups (nodes (assign_nodes c s0)) (ground_keys (assign_nodes c s0)) r \<noteq> None"
      using n [of r] by force
    ultimately show ?thesis using assms by (auto simp: fn merge_lookup_def)
  qed (simp_all add: e)
qed

text \<open>
  C1, at a canvas with one ground anchor and one resistor and no wire. \<open>_get_node\<close> gives
  the ground pin the raw node 0, but the merge table of the run has no entry for 0: the
  serializer's \<open>merge[self._get_node(pin)]\<close> on the ground pin raises \<open>KeyError\<close> and does
  not give 0. The run itself returns the line of the resistor.
\<close>

theorem unwired_ground_has_no_final_node:
  "lookup_node lone_ground_canvas (assign_nodes lone_ground_canvas init_generator) (100, 100) = Some 0
   \<and> final_node lone_ground_canvas init_generator (100, 100) = Inl KeyError
   \<and> fst (generate_netlist init_generator lone_ground_canvas Map.empty) = Inr ''R1 1 2 100''"
  by code_simp

text \<open>
  C2, at a canvas whose resistor has its left pin on a ground anchor that no wire touches.
  The assigner returns the raw node 0 for that pin and 1 for the other; the merge table
  has an entry for 1 and none for 0, and the serializer's lookup raises \<open>KeyError\<close>.
\<close>

theorem pin_on_unwired_ground_raises_KeyError:
  "get_component_pins ''resistor'' (130, 100) = [(100, 100), (160, 100)]
   \<and> lookup_node ground_pin_canvas (assign_nodes ground_pin_canvas init_generator) (100, 100) = Some 0
   \<and> lookup_node ground_pin_canvas (assign_nodes ground_pin_canvas init_generator) (160, 100) = Some 1
   \<and> final_node ground_pin_canvas init_generator (100, 100) = Inl KeyError
   \<and> final_node ground_pin_canvas init_generator (160, 100) = Inr 1
   \<and> fst (generate_netlist init_generator ground_pin_canvas Map.empty) = Inl KeyError"
  by code_simp

section \<open>The groups are the connected components of the wire graph\<close>

lemma wire_edge_setdefault_add:
  "wire_edge (setdefault_add wire_adj a b) x y \<longleftrightarrow> wire_edge wire_adj x y \<or> (x = a \<and> y = b)"
  by (auto simp: wire_edge_def map_of_setdefault_add split: option.splits if_splits)

lemma wire_edge_add:
  "wire_edge (add wire_adj a b) x y
     \<longleftrightarrow> wire_edge wire_adj x y \<or> (x = a \<and> y = b) \<or> (x = b \<and> y = a)"
  by (auto simp: add_def wire_edge_setdefault_add)

lemma wire_edge_build:
  "wire_edge (snd (build_wire_adj c ls (s, wire_adj))) x y
     \<longleftrightarrow> wire_edge wire_adj x y
       \<or> (\<exists>(p, q)\<in>set ls. (lookup_node c s p = Some x \<and> lookup_node c s q = Some y)
                           \<or> (lookup_node c s p = Some y \<and> lookup_node c s q = Some x))"
proof (induction ls arbitrary: wire_adj)
  case Nil
  show ?case by simp
next
  case (Cons l ls)
  obtain a b where l: "l = (a, b)" by (cases l)
  show ?case unfolding l build_wire_adj.simps get_node_lookup prod.case
    by (cases "lookup_node c s a"; cases "lookup_node c s b")
       (auto simp: Cons.IH wire_edge_add)
qed

lemma wire_graph_edge:
  "wire_edge (wire_graph c s) x y
     \<longleftrightarrow> (\<exists>(p, q)\<in>set (lines c). (lookup_node c s p = Some x \<and> lookup_node c s q = Some y)
                           \<or> (lookup_node c s p = Some y \<and> lookup_node c s q = Some x))"
  unfolding wire_graph_def wire_edge_build by (simp add: wire_edge_def)

lemma wire_graph_sym: "wire_edge (wire_graph c s) x y \<Longrightarrow> wire_edge (wire_graph c s) y x"
  unfolding wire_graph_edge by blast

lemma wire_edge_key: "wire_edge wire_adj a b \<Longrightarrow> map_of wire_adj a \<noteq> None"
  by (auto simp: wire_edge_def)

lemma traverse_mono:
  "traverse wire_adj stack visited g = Inr (visited', g') \<Longrightarrow> visited \<subseteq> visited'"
  using traverse_new by blast

lemma traverse_closure:
  "traverse wire_adj stack visited g = Inr (visited', g') \<Longrightarrow>
   \<forall>v\<in>P. \<forall>w. wire_edge wire_adj v w \<longrightarrow> w \<in> visited \<union> set stack \<Longrightarrow>
     (\<forall>v\<in>P \<union> (visited' - visited). \<forall>w. wire_edge wire_adj v w \<longrightarrow> w \<in> visited')
     \<and> set stack \<subseteq> visited'"
proof (induction wire_adj stack visited g arbitrary: visited' g' P rule: traverse.induct)
  case (1 wire_adj visited g)
  then show ?case by auto
next
  case (2 wire_adj cur stack visited g)
  show ?case
  proof (cases "cur \<in> visited")
    case True
    with "2.prems"(1) have t: "traverse wire_adj stack visited g = Inr (visited', g')" by simp
    from "2.prems"(2) True have "\<forall>v\<in>P. \<forall>w. wire_edge wire_adj v w \<longrightarrow> w \<in> visited \<union> set stack"
      by auto
    from "2.IH"(1) [OF True t this] traverse_mono [OF t] True show ?thesis by auto
  next
    case False
    with "2.prems"(1) obtain nbrs where nb: "map_of wire_adj cur = Some nbrs"
      by (auto split: option.splits)
    let ?stack = "rev (filter (\<lambda>nx. nx \<notin> insert cur visited) nbrs) @ stack"
    from False nb "2.prems"(1)
    have t: "traverse wire_adj ?stack (insert cur visited) (g @ [cur]) = Inr (visited', g')" by simp
    have pre: "\<forall>v\<in>insert cur P. \<forall>w. wire_edge wire_adj v w \<longrightarrow> w \<in> insert cur visited \<union> set ?stack"
    proof (intro ballI allI impI)
      fix v w assume v: "v \<in> insert cur P" and e: "wire_edge wire_adj v w"
      show "w \<in> insert cur visited \<union> set ?stack"
      proof (cases "v = cur")
        case True
        with e nb have "w \<in> set nbrs" by (simp add: wire_edge_def)
        then show ?thesis by auto
      next
        case False
        with v "2.prems"(2) e have "w \<in> visited \<union> set (cur # stack)" by blast
        then show ?thesis by auto
      qed
    qed
    from "2.IH"(2) [OF False nb t pre]
    have 1: "\<forall>v\<in>insert cur P \<union> (visited' - insert cur visited). \<forall>w. wire_edge wire_adj v w \<longrightarrow> w \<in> visited'"
      and 2: "set ?stack \<subseteq> visited'" by blast+
    from traverse_mono [OF t] have 3: "cur \<in> visited'" by auto
    from 1 have "\<forall>v\<in>P \<union> (visited' - visited). \<forall>w. wire_edge wire_adj v w \<longrightarrow> w \<in> visited'"
      by blast
    moreover from 2 3 have "set (cur # stack) \<subseteq> visited'" by auto
    ultimately show ?thesis by blast
  qed
qed

lemma traverse_reachable:
  "traverse wire_adj stack visited g = Inr (visited', g') \<Longrightarrow>
     \<forall>v\<in>visited' - visited. \<exists>s\<in>set stack. (s, v) \<in> (wired wire_adj)\<^sup>*"
proof (induction wire_adj stack visited g arbitrary: visited' g' rule: traverse.induct)
  case (1 wire_adj visited g)
  then show ?case by auto
next
  case (2 wire_adj cur stack visited g)
  show ?case
  proof (cases "cur \<in> visited")
    case True
    with "2.prems"(1) have t: "traverse wire_adj stack visited g = Inr (visited', g')" by simp
    from "2.IH"(1) [OF True t] show ?thesis by auto
  next
    case False
    with "2.prems"(1) obtain nbrs where nb: "map_of wire_adj cur = Some nbrs"
      by (auto split: option.splits)
    let ?stack = "rev (filter (\<lambda>nx. nx \<notin> insert cur visited) nbrs) @ stack"
    from False nb "2.prems"(1)
    have t: "traverse wire_adj ?stack (insert cur visited) (g @ [cur]) = Inr (visited', g')" by simp
    note IH = "2.IH"(2) [OF False nb t]
    show ?thesis
    proof (intro ballI)
      fix v assume v: "v \<in> visited' - visited"
      show "\<exists>s\<in>set (cur # stack). (s, v) \<in> (wired wire_adj)\<^sup>*"
      proof (cases "v = cur")
        case True
        then show ?thesis by auto
      next
        case False
        with v IH obtain s where s: "s \<in> set ?stack" "(s, v) \<in> (wired wire_adj)\<^sup>*" by blast
        show ?thesis
        proof (cases "s \<in> set stack")
          case True
          with s show ?thesis by auto
        next
          case False
          with s(1) have "s \<in> set nbrs" by auto
          with nb have "(cur, s) \<in> wired wire_adj" by (auto simp: wired_def wire_edge_def)
          from this s(2) have "(cur, v) \<in> (wired wire_adj)\<^sup>*" by (rule converse_rtrancl_into_rtrancl)
          then show ?thesis by auto
        qed
      qed
    qed
  qed
qed


lemma traverse_component:
  assumes t: "traverse wire_adj [n] visited [] = Inr (visited', g)"
    and n: "n \<notin> visited"
    and sym: "\<And>x y. wire_edge wire_adj x y \<Longrightarrow> wire_edge wire_adj y x"
    and vc: "\<forall>v\<in>visited. \<forall>w. wire_edge wire_adj v w \<longrightarrow> w \<in> visited"
  shows "set g = component_of wire_adj n" and "visited' = visited \<union> set g"
    and "\<forall>v\<in>visited'. \<forall>w. wire_edge wire_adj v w \<longrightarrow> w \<in> visited'"
proof -
  from traverse_new [OF t] have g: "set g \<inter> visited = {}" and v': "visited' = visited \<union> set g"
    by auto
  then have new: "visited' - visited = set g" by auto
  from traverse_closure [OF t, of "{}"] have cl: "\<forall>v\<in>set g. \<forall>w. wire_edge wire_adj v w \<longrightarrow> w \<in> visited'"
    and "n \<in> visited'" by (auto simp: new)
  with n v' have ng: "n \<in> set g" by auto
  have gcl: "w \<in> set g" if "v \<in> set g" "wire_edge wire_adj v w" for v w
  proof (rule ccontr)
    assume "w \<notin> set g"
    with cl that v' have "w \<in> visited" by auto
    with vc sym [OF that(2)] have "v \<in> visited" by blast
    with g that(1) show False by auto
  qed
  have "v \<in> set g" if "(n, v) \<in> (wired wire_adj)\<^sup>*" for v
    using that by (induction rule: rtrancl_induct) (auto simp: ng wired_def intro: gcl)
  moreover have "(n, v) \<in> (wired wire_adj)\<^sup>*" if "v \<in> set g" for v
    using traverse_reachable [OF t] that by (auto simp: new)
  ultimately show "set g = component_of wire_adj n" by (auto simp: component_of_def)
  show "visited' = visited \<union> set g" by (rule v')
  show "\<forall>v\<in>visited'. \<forall>w. wire_edge wire_adj v w \<longrightarrow> w \<in> visited'"
    using vc cl v' by blast
qed

lemma find_groups_components:
  assumes "find_groups wire_adj ns visited groups = Inr gs"
    and "\<forall>x y. wire_edge wire_adj x y \<longrightarrow> wire_edge wire_adj y x"
    and "\<forall>v\<in>visited. \<forall>w. wire_edge wire_adj v w \<longrightarrow> w \<in> visited"
  shows "\<exists>new. gs = groups @ new
     \<and> (\<forall>g\<in>set new. \<exists>n\<in>set ns. set g = component_of wire_adj n)
     \<and> set ns \<subseteq> visited \<union> \<Union>(set ` set new)"
  using assms
proof (induction wire_adj ns visited groups arbitrary: gs rule: find_groups.induct)
  case (1 wire_adj visited groups)
  then show ?case by simp
next
  case (2 wire_adj n ns visited groups)
  from "2.prems"(2) have sym: "\<And>x y. wire_edge wire_adj x y \<Longrightarrow> wire_edge wire_adj y x" by blast
  show ?case
  proof (cases "n \<in> visited")
    case True
    with "2.prems"(1) have f: "find_groups wire_adj ns visited groups = Inr gs" by simp
    from "2.IH"(1) [OF True f "2.prems"(2,3)] True show ?thesis by auto
  next
    case False
    with "2.prems"(1) obtain v' g where t: "traverse wire_adj [n] visited [] = Inr (v', g)"
      by (auto split: sum.splits)
    with False "2.prems"(1) have f: "find_groups wire_adj ns v' (groups @ [g]) = Inr gs" by simp
    note tc = traverse_component [OF t False _ "2.prems"(3)]
    have 1: "set g = component_of wire_adj n" by (rule tc(1)) (rule sym)
    have 2: "v' = visited \<union> set g" by (rule tc(2)) (rule sym)
    have 3: "\<forall>v\<in>v'. \<forall>w. wire_edge wire_adj v w \<longrightarrow> w \<in> v'" by (rule tc(3)) (rule sym)
    from "2.IH"(2) [OF False t refl f "2.prems"(2) 3] obtain new where
      new: "gs = (groups @ [g]) @ new" "\<forall>h\<in>set new. \<exists>m\<in>set ns. set h = component_of wire_adj m"
        "set ns \<subseteq> v' \<union> \<Union>(set ` set new)" by blast
    have "n \<in> set g" unfolding 1 by (simp add: component_of_def)
    with new 1 2 have "gs = groups @ (g # new)"
      "\<forall>h\<in>set (g # new). \<exists>m\<in>set (n # ns). set h = component_of wire_adj m"
      "set (n # ns) \<subseteq> visited \<union> \<Union>(set ` set (g # new))" by auto
    then show ?thesis by blast
  qed
qed


lemma key_has_edge_add:
  "\<forall>k. map_of wire_adj k \<noteq> None \<longrightarrow> (\<exists>w. wire_edge wire_adj k w) \<Longrightarrow>
     \<forall>k. map_of (add wire_adj a b) k \<noteq> None \<longrightarrow> (\<exists>w. wire_edge (add wire_adj a b) k w)"
  unfolding map_of_add_keys wire_edge_add by blast

lemma key_has_edge_build:
  "\<forall>k. map_of wire_adj k \<noteq> None \<longrightarrow> (\<exists>w. wire_edge wire_adj k w) \<Longrightarrow>
     \<forall>k. map_of (snd (build_wire_adj c ls (s, wire_adj))) k \<noteq> None
        \<longrightarrow> (\<exists>w. wire_edge (snd (build_wire_adj c ls (s, wire_adj))) k w)"
proof (induction ls arbitrary: wire_adj)
  case Nil
  then show ?case by simp
next
  case (Cons l ls)
  obtain a b where l: "l = (a, b)" by (cases l)
  show ?case unfolding l build_wire_adj.simps get_node_lookup prod.case
    by (cases "lookup_node c s a"; cases "lookup_node c s b")
       (auto intro!: Cons.IH [rule_format] key_has_edge_add [rule_format] Cons.prems [rule_format])
qed

lemma wire_graph_key_edge:
  "map_of (wire_graph c s) k \<noteq> None \<Longrightarrow> \<exists>w. wire_edge (wire_graph c s) k w"
  using key_has_edge_build [of "[]" c "lines c" s] by (simp add: wire_graph_def)

lemma sym_wired: "sym (wired (wire_graph c s))"
  by (auto simp: sym_def wired_def intro: wire_graph_sym)

lemma run_groups_components:
  assumes "find_groups (wire_graph c s) (map fst (wire_graph c s)) {} [] = Inr groups"
  shows "\<forall>g\<in>set groups. \<exists>n. map_of (wire_graph c s) n \<noteq> None \<and> set g = component_of (wire_graph c s) n"
    and "\<forall>n. map_of (wire_graph c s) n \<noteq> None \<longrightarrow> (\<exists>g\<in>set groups. n \<in> set g)"
proof -
  have "\<forall>x y. wire_edge (wire_graph c s) x y \<longrightarrow> wire_edge (wire_graph c s) y x"
    by (blast intro: wire_graph_sym)
  from find_groups_components [OF assms this]
  have 1: "\<forall>g\<in>set groups. \<exists>n\<in>set (map fst (wire_graph c s)). set g = component_of (wire_graph c s) n"
    and 2: "set (map fst (wire_graph c s)) \<subseteq> \<Union>(set ` set groups)" by auto
  from 1 show "\<forall>g\<in>set groups. \<exists>n. map_of (wire_graph c s) n \<noteq> None \<and> set g = component_of (wire_graph c s) n"
    by (metis map_of_eq_None_iff set_map)
  from 2 show "\<forall>n. map_of (wire_graph c s) n \<noteq> None \<longrightarrow> (\<exists>g\<in>set groups. n \<in> set g)"
    by (auto simp: map_of_eq_None_iff)
qed

lemma final_node_zero_wired:
  "final_node c s0 pin = Inr 0 \<longleftrightarrow>
     (\<exists>r. lookup_node c (assign_nodes c s0) pin = Some r
        \<and> (0, r) \<in> (wired (wire_graph c (assign_nodes c s0)))\<^sup>+)"
proof -
  let ?s = "assign_nodes c s0"
  let ?E = "wired (wire_graph c ?s)"
  from run_merge_hypotheses [of c s0] obtain groups where
    g: "find_groups (wire_graph c ?s) (map fst (wire_graph c ?s)) {} [] = Inr groups" by blast
  note comp = run_groups_components [OF g]
  have symE: "(y, x) \<in> ?E\<^sup>*" if "(x, y) \<in> ?E\<^sup>*" for x y
    using that sym_rtrancl [OF sym_wired [of c ?s]] by (auto simp: sym_def)
  show ?thesis
  proof
    assume "final_node c s0 pin = Inr 0"
    then obtain groups' h r where "find_groups (wire_graph c ?s) (map fst (wire_graph c ?s)) {} [] = Inr groups'"
      and r: "lookup_node c ?s pin = Some r" and h: "h \<in> set groups'" "0 \<in> set h" "r \<in> set h"
      unfolding final_node_zero_iff by blast
    with g have hg: "h \<in> set groups" by simp
    with comp(1) obtain n where n: "map_of (wire_graph c ?s) n \<noteq> None" "set h = component_of (wire_graph c ?s) n"
      by blast
    with h have n0: "(n, 0) \<in> ?E\<^sup>*" and nr: "(n, r) \<in> ?E\<^sup>*" by (auto simp: component_of_def)
    from symE [OF n0] nr have 0: "(0, r) \<in> ?E\<^sup>*" by (rule rtrancl_trans)
    have "\<exists>w. (0, w) \<in> ?E"
    proof (cases "n = 0")
      case True
      with n(1) wire_graph_key_edge [of c ?s 0] show ?thesis by (auto simp: wired_def)
    next
      case False
      with n0 have "(n, 0) \<in> ?E\<^sup>+" by (auto dest: rtranclD)
      then obtain w where "(w, 0) \<in> ?E" by (auto dest: tranclD2)
      then have "(0, w) \<in> ?E" using sym_wired [of c ?s] by (auto simp: sym_def)
      then show ?thesis by blast
    qed
    then obtain w where w: "(0, w) \<in> ?E" by blast
    have "(0, r) \<in> ?E\<^sup>+"
    proof (cases "r = 0")
      case True
      from w have "(w, 0) \<in> ?E" using sym_wired [of c ?s] by (auto simp: sym_def)
      with w True show ?thesis by auto
    next
      case False
      with 0 show ?thesis by (auto dest: rtranclD)
    qed
    with r show "\<exists>r. lookup_node c ?s pin = Some r \<and> (0, r) \<in> ?E\<^sup>+" by blast
  next
    assume "\<exists>r. lookup_node c ?s pin = Some r \<and> (0, r) \<in> ?E\<^sup>+"
    then obtain r where r: "lookup_node c ?s pin = Some r" "(0, r) \<in> ?E\<^sup>+" by blast
    from r(2) obtain w where "(0, w) \<in> ?E" by (auto dest: tranclD)
    then have "map_of (wire_graph c ?s) 0 \<noteq> None" by (auto simp: wired_def dest: wire_edge_key)
    with comp(2) obtain h where h: "h \<in> set groups" "0 \<in> set h" by blast
    with comp(1) obtain n where "set h = component_of (wire_graph c ?s) n" by blast
    with h(2) r(2) have "r \<in> set h"
      by (auto simp: component_of_def intro: rtrancl_trans trancl_into_rtrancl)
    with g r(1) h show "final_node c s0 pin = Inr 0" unfolding final_node_zero_iff by blast
  qed
qed

section \<open>Runs with an unwired ground and with two short circuits\<close>

lemma chain_canvas_fields:
  "components chain_canvas = [(''ground'', (100, 100)), (''resistor'', (200, 100)), (''resistor'', (200, 300))]"
  "lines chain_canvas = [((230, 100), (170, 300))]"
  by (simp_all add: chain_canvas_def)

lemma chain_canvas_candidates:
  "set (candidates chain_canvas) = {(100, 100), (170, 100), (230, 100), (170, 300), (230, 300)}"
  by (auto simp add: candidates_def chain_canvas_fields)

lemma chain_canvas_collect:
  "collect_all_pins chain_canvas \<lparr>nodes = [], next_node_num = 1, all_pins = [], ground_keys = {}\<rparr> =
     \<lparr>nodes = [], next_node_num = 1,
      all_pins = [(100, 100), (170, 100), (230, 100), (170, 300), (230, 300), (230, 100), (170, 300)],
      ground_keys = {(100, 100)}\<rparr>"
  by (simp add: collect_all_pins_def chain_canvas_fields py_tags)

lemma chain_canvas_assign:
  "assign_nodes chain_canvas init_generator =
     \<lparr>nodes = [((170, 100), 1), ((230, 100), 2), ((170, 300), 3), ((230, 300), 4)],
      next_node_num = 5,
      all_pins = [(100, 100), (170, 100), (230, 100), (170, 300), (230, 300), (230, 100), (170, 300)],
      ground_keys = {(100, 100)}\<rparr>"
  by (simp add: assign_nodes_def init_generator_def chain_canvas_collect create_pass_def
       get_node_candidate chain_canvas_candidates grid_size_def)

lemma chain_canvas_wire:
  "build_wire_adj chain_canvas (lines chain_canvas) (assign_nodes chain_canvas init_generator, [])
     = (assign_nodes chain_canvas init_generator, [(2, [3]), (3, [2])])"
  by (simp add: chain_canvas_assign chain_canvas_fields get_node_candidate chain_canvas_candidates
       grid_size_def add_def setdefault_add_def)

lemma chain_canvas_groups: "find_groups [(2, [3]), (3, [2])] [2, 3] {} [] = Inr [[2, 3]]"
  by simp

lemma chain_canvas_merge:
  "build_merge chain_canvas (assign_nodes chain_canvas init_generator)
     = (Inr (merge_nodes [[2, 3]] (nodes (assign_nodes chain_canvas init_generator))
     (ground_keys (assign_nodes chain_canvas init_generator))),
        assign_nodes chain_canvas init_generator)"
  by (simp add: build_merge_def chain_canvas_wire chain_canvas_groups)

lemma chain_canvas_merge_values:
  "merge_nodes [[2, 3]] (nodes (assign_nodes chain_canvas init_generator))
     (ground_keys (assign_nodes chain_canvas init_generator)) 0 = None"
  "merge_nodes [[2, 3]] (nodes (assign_nodes chain_canvas init_generator))
     (ground_keys (assign_nodes chain_canvas init_generator)) 1 = Some 2"
  "merge_nodes [[2, 3]] (nodes (assign_nodes chain_canvas init_generator))
     (ground_keys (assign_nodes chain_canvas init_generator)) 2 = Some 1"
  "merge_nodes [[2, 3]] (nodes (assign_nodes chain_canvas init_generator))
     (ground_keys (assign_nodes chain_canvas init_generator)) 3 = Some 1"
  "merge_nodes [[2, 3]] (nodes (assign_nodes chain_canvas init_generator))
     (ground_keys (assign_nodes chain_canvas init_generator)) 4 = Some 3"
  by (simp_all add: chain_canvas_assign merge_nodes_def merge_step1_def assign_group_def)

lemma chain_canvas_lookup:
  "lookup_node chain_canvas (assign_nodes chain_canvas init_generator) (100, 100) = Some 0"
  "lookup_node chain_canvas (assign_nodes chain_canvas init_generator) (170, 100) = Some 1"
  "lookup_node chain_canvas (assign_nodes chain_canvas init_generator) (230, 100) = Some 2"
  "lookup_node chain_canvas (assign_nodes chain_canvas init_generator) (170, 300) = Some 3"
  "lookup_node chain_canvas (assign_nodes chain_canvas init_generator) (230, 300) = Some 4"
  by (simp_all add: lookup_node_def chain_canvas_assign get_node_candidate chain_canvas_candidates
       grid_size_def)

lemma chain_canvas_final:
  "final_node chain_canvas init_generator (100, 100) = Inl KeyError"
  "final_node chain_canvas init_generator (170, 100) = Inr 2"
  "final_node chain_canvas init_generator (230, 100) = Inr 1"
  "final_node chain_canvas init_generator (170, 300) = Inr 1"
  "final_node chain_canvas init_generator (230, 300) = Inr 3"
  by (simp_all add: final_node_lookup [OF chain_canvas_merge] chain_canvas_lookup
       chain_canvas_merge_values merge_lookup_def)

text \<open>
  C4, at a canvas with a ground anchor that no wire touches and two resistors joined by
  one wire. The raw node 0 of the ground pin is in no group of the wire graph and its
  point is a ground anchor, but the merge table has no entry for it. The group of the
  wire gets the id 1, and the two raw nodes in no group get the ids 2 and 3.
\<close>

theorem unwired_ground_gets_no_merge_entry:
  "lookup_node chain_canvas (assign_nodes chain_canvas init_generator) (100, 100) = Some 0
   \<and> (100, 100) \<in> ground_keys (assign_nodes chain_canvas init_generator)
   \<and> wire_graph chain_canvas (assign_nodes chain_canvas init_generator) = [(2, [3]), (3, [2])]
   \<and> find_groups [(2, [3]), (3, [2])] [2, 3] {} [] = Inr [[2, 3]]
   \<and> merge_nodes [[2, 3]] (nodes (assign_nodes chain_canvas init_generator))
         (ground_keys (assign_nodes chain_canvas init_generator)) 0 = None
   \<and> final_node chain_canvas init_generator (100, 100) = Inl KeyError
   \<and> final_node chain_canvas init_generator (230, 100) = Inr 1
   \<and> final_node chain_canvas init_generator (170, 300) = Inr 1
   \<and> final_node chain_canvas init_generator (170, 100) = Inr 2
   \<and> final_node chain_canvas init_generator (230, 300) = Inr 3"
proof -
  have gk: "(100, 100) \<in> ground_keys (assign_nodes chain_canvas init_generator)"
    by (simp add: chain_canvas_assign)
  have wg: "wire_graph chain_canvas (assign_nodes chain_canvas init_generator) = [(2, [3]), (3, [2])]"
    by (simp add: wire_graph_def chain_canvas_wire)
  from gk wg chain_canvas_lookup(1) chain_canvas_groups chain_canvas_merge_values(1) chain_canvas_final
  show ?thesis by blast
qed

lemma two_short_canvas_fields:
  "components two_short_canvas = [(''battery'', (200, 100)), (''resistor'', (200, 300))]"
  "lines two_short_canvas = [((170, 100), (230, 100)), ((170, 300), (230, 300))]"
  by (simp_all add: two_short_canvas_def)

lemma two_short_canvas_candidates:
  "set (candidates two_short_canvas) = {(170, 100), (230, 100), (170, 300), (230, 300)}"
  by (auto simp add: candidates_def two_short_canvas_fields)

lemma two_short_canvas_collect:
  "collect_all_pins two_short_canvas \<lparr>nodes = [], next_node_num = 1, all_pins = [], ground_keys = {}\<rparr> =
     \<lparr>nodes = [], next_node_num = 1,
      all_pins = [(170, 100), (230, 100), (170, 300), (230, 300), (170, 100), (230, 100), (170, 300), (230, 300)],
      ground_keys = {}\<rparr>"
  by (simp add: collect_all_pins_def two_short_canvas_fields py_tags)

lemma two_short_canvas_assign:
  "assign_nodes two_short_canvas init_generator =
     \<lparr>nodes = [((170, 100), 1), ((230, 100), 2), ((170, 300), 3), ((230, 300), 4)],
      next_node_num = 5,
      all_pins = [(170, 100), (230, 100), (170, 300), (230, 300), (170, 100), (230, 100), (170, 300), (230, 300)],
      ground_keys = {}\<rparr>"
  by (simp add: assign_nodes_def init_generator_def two_short_canvas_collect create_pass_def
       get_node_candidate two_short_canvas_candidates grid_size_def)

lemma two_short_canvas_wire:
  "build_wire_adj two_short_canvas (lines two_short_canvas) (assign_nodes two_short_canvas init_generator, [])
     = (assign_nodes two_short_canvas init_generator, [(1, [2]), (2, [1]), (3, [4]), (4, [3])])"
  by (simp add: two_short_canvas_assign two_short_canvas_fields get_node_candidate two_short_canvas_candidates
       grid_size_def add_def setdefault_add_def)

lemma two_short_canvas_groups: "find_groups [(1, [2]), (2, [1]), (3, [4]), (4, [3])] [1, 2, 3, 4] {} [] = Inr [[1, 2], [3, 4]]"
  by simp

lemma two_short_canvas_merge:
  "build_merge two_short_canvas (assign_nodes two_short_canvas init_generator)
     = (Inr (merge_nodes [[1, 2], [3, 4]] (nodes (assign_nodes two_short_canvas init_generator))
     (ground_keys (assign_nodes two_short_canvas init_generator))),
        assign_nodes two_short_canvas init_generator)"
  by (simp add: build_merge_def two_short_canvas_wire two_short_canvas_groups)

lemma two_short_canvas_merge_values:
  "merge_nodes [[1, 2], [3, 4]] (nodes (assign_nodes two_short_canvas init_generator))
     (ground_keys (assign_nodes two_short_canvas init_generator)) 1 = Some 1"
  "merge_nodes [[1, 2], [3, 4]] (nodes (assign_nodes two_short_canvas init_generator))
     (ground_keys (assign_nodes two_short_canvas init_generator)) 2 = Some 1"
  "merge_nodes [[1, 2], [3, 4]] (nodes (assign_nodes two_short_canvas init_generator))
     (ground_keys (assign_nodes two_short_canvas init_generator)) 3 = Some 2"
  "merge_nodes [[1, 2], [3, 4]] (nodes (assign_nodes two_short_canvas init_generator))
     (ground_keys (assign_nodes two_short_canvas init_generator)) 4 = Some 2"
  by (simp_all add: two_short_canvas_assign merge_nodes_def merge_step1_def assign_group_def)

lemma two_short_canvas_lookup:
  "lookup_node two_short_canvas (assign_nodes two_short_canvas init_generator) (170, 100) = Some 1"
  "lookup_node two_short_canvas (assign_nodes two_short_canvas init_generator) (230, 100) = Some 2"
  "lookup_node two_short_canvas (assign_nodes two_short_canvas init_generator) (170, 300) = Some 3"
  "lookup_node two_short_canvas (assign_nodes two_short_canvas init_generator) (230, 300) = Some 4"
  by (simp_all add: lookup_node_def two_short_canvas_assign get_node_candidate two_short_canvas_candidates
       grid_size_def)

lemma two_short_canvas_final:
  "final_node two_short_canvas init_generator (170, 100) = Inr 1"
  "final_node two_short_canvas init_generator (230, 100) = Inr 1"
  "final_node two_short_canvas init_generator (170, 300) = Inr 2"
  "final_node two_short_canvas init_generator (230, 300) = Inr 2"
  by (simp_all add: final_node_lookup [OF two_short_canvas_merge] two_short_canvas_lookup
       two_short_canvas_merge_values merge_lookup_def)

lemma two_short_canvas_run:
  "fst (generate_netlist init_generator two_short_canvas Map.empty) = Inl (ValueError_shorted ''battery'' 1)"
  by (simp add: generate_netlist_def two_short_canvas_merge two_short_canvas_fields serialize_electrical
        electrical_def merge_lookup_def two_short_canvas_lookup two_short_canvas_merge_values)

text \<open>
  Two short circuits in one list: the pins of the resistor resolve to the same final node
  2, but the loop raises at the battery before it, and the error carries the battery and
  node 1.
\<close>

theorem short_circuit_names_first_counterexample:
  "(''resistor'', (200, 300)) \<in> set (components two_short_canvas)
   \<and> final_node two_short_canvas init_generator (get_component_pins ''resistor'' (200, 300) ! 0) = Inr 2
   \<and> final_node two_short_canvas init_generator (get_component_pins ''resistor'' (200, 300) ! 1) = Inr 2
   \<and> fst (generate_netlist init_generator two_short_canvas Map.empty) = Inl (ValueError_shorted ''battery'' 1)
   \<and> fst (generate_netlist init_generator two_short_canvas Map.empty) \<noteq> Inl (ValueError_shorted ''resistor'' 2)"
  by (simp add: two_short_canvas_fields two_short_canvas_final two_short_canvas_run)

end
